theory Spec2Isabelle
  imports Main "HOL-Library.Sublist"
begin

section \<open>Strings and character classes of the regular expressions\<close>

text \<open>
  A JavaScript string is a sequence of UTF-16 code units; none of the patterns of the
  library carries the \<^verbatim>\<open>u\<close> flag, so they work on code units. The model takes the
  code units below 256 (Latin-1) and writes them as \<^typ>\<open>char\<close>, a string as
  \<^typ>\<open>string\<close>. The classes below are the ECMAScript ones cut to that range.
\<close>

abbreviation nl :: char where "nl \<equiv> CHR 0x0A"
abbreviation cr :: char where "cr \<equiv> CHR 0x0D"
abbreviation backslash :: char where "backslash \<equiv> CHR 0x5C"
abbreviation dquote :: char where "dquote \<equiv> CHR 0x22"

text \<open>\<^verbatim>\<open>\s\<close>: tab, line feed, vertical tab, form feed, carriage return, space, no-break space.\<close>

definition isSpace :: "char \<Rightarrow> bool" where
  "isSpace c = (c = CHR 0x09 \<or> c = nl \<or> c = CHR 0x0B \<or> c = CHR 0x0C \<or> c = cr
                \<or> c = CHR '' '' \<or> c = CHR 0xA0)"

text \<open>Line terminators: what \<^verbatim>\<open>.\<close> refuses and where \<^verbatim>\<open>^\<close> and \<^verbatim>\<open>$\<close> of a multiline pattern hold.\<close>

definition isLT :: "char \<Rightarrow> bool" where
  "isLT c = (c = nl \<or> c = cr)"

text \<open>A range \<^verbatim>\<open>lo-hi\<close> of a character class compares code units.\<close>

definition inRange :: "char \<Rightarrow> char \<Rightarrow> char \<Rightarrow> bool" where
  "inRange lo hi c = ((of_char lo :: nat) \<le> of_char c \<and> (of_char c :: nat) \<le> of_char hi)"

definition isDigit :: "char \<Rightarrow> bool" where
  "isDigit c = inRange (CHR ''0'') (CHR ''9'') c"

definition isLower :: "char \<Rightarrow> bool" where
  "isLower c = inRange (CHR ''a'') (CHR ''z'') c"

definition isUpper :: "char \<Rightarrow> bool" where
  "isUpper c = inRange (CHR ''A'') (CHR ''Z'') c"

text \<open>\<^verbatim>\<open>\w\<close> is \<^verbatim>\<open>[A-Za-z0-9_]\<close>.\<close>

definition isWord :: "char \<Rightarrow> bool" where
  "isWord c = (isLower c \<or> isUpper c \<or> isDigit c \<or> c = CHR ''_'')"

text \<open>\<^verbatim>\<open>^\<close> of a multiline pattern: at the start of the input or right after a line terminator.
  The scanner hands the matcher the code unit before the position.\<close>

definition atLineStart :: "char option \<Rightarrow> bool" where
  "atLineStart prev = (case prev of None \<Rightarrow> True | Some c \<Rightarrow> isLT c)"

text \<open>\<^verbatim>\<open>String.prototype.trim\<close> removes white space and line terminators at both ends.\<close>

definition trimStart :: "string \<Rightarrow> string" where
  "trimStart s = dropWhile isSpace s"

definition trimEnd :: "string \<Rightarrow> string" where
  "trimEnd s = rev (dropWhile isSpace (rev s))"

definition trim :: "string \<Rightarrow> string" where
  "trim s = trimEnd (trimStart s)"

text \<open>\<^verbatim>\<open>String.prototype.toLowerCase\<close> on Latin-1: A to Z, and the letters 0xC0 to 0xDE
  apart from the multiplication sign 0xD7, move up by 32.\<close>

definition toLowerChar :: "char \<Rightarrow> char" where
  "toLowerChar c =
     (if isUpper c \<or> (inRange (CHR 0xC0) (CHR 0xDE) c \<and> c \<noteq> CHR 0xD7)
      then char_of (of_char c + (32::nat)) else c)"

definition toLowerCase :: "string \<Rightarrow> string" where
  "toLowerCase s = map toLowerChar s"

section \<open>Global replacement\<close>

text \<open>
  \<^verbatim>\<open>s.replace(/re/g, rep)\<close> scans the original string from left to right. A matcher
  models one pattern tried at one position: it gets the code unit before the position
  (for \<^verbatim>\<open>^\<close>) and the rest of the input, and answers with the number of code units
  the match takes and the text that replaces them. After a match the scan goes on behind
  it; after an empty match, or none, the code unit at the position is copied and the scan
  moves one further.
\<close>

type_synonym matcher = "char option \<Rightarrow> string \<Rightarrow> (nat \<times> string) option"

fun replaceAll :: "matcher \<Rightarrow> char option \<Rightarrow> string \<Rightarrow> string" where
  "replaceAll m prev [] = (case m prev [] of Some (n, rep) \<Rightarrow> rep | None \<Rightarrow> [])"
| "replaceAll m prev (c # cs) =
     (case m prev (c # cs) of
        None \<Rightarrow> c # replaceAll m (Some c) cs
      | Some (n, rep) \<Rightarrow>
          if n = 0 then rep @ c # replaceAll m (Some c) cs
          else rep @ replaceAll m (Some (last (take n (c # cs)))) (drop n (c # cs)))"

section \<open>The exec loop\<close>

text \<open>
  \<^verbatim>\<open>while ((match = re.exec(s)) !== null) { ... }\<close> with a global pattern: each call
  searches from \<^verbatim>\<open>lastIndex\<close> for the next match and sets \<^verbatim>\<open>lastIndex\<close> behind it.
  An empty match leaves \<^verbatim>\<open>lastIndex\<close> where it was, and the loop never ends: the
  model answers \<open>None\<close> then. The matcher gives the length of the match and what the
  loop body reads from it.
\<close>

fun execAll :: "(char option \<Rightarrow> string \<Rightarrow> (nat \<times> 'a) option) \<Rightarrow> char option \<Rightarrow> string \<Rightarrow> 'a list option" where
  "execAll m prev [] = (case m prev [] of None \<Rightarrow> Some [] | Some (n, x) \<Rightarrow> None)"
| "execAll m prev (c # cs) =
     (case m prev (c # cs) of
        None \<Rightarrow> execAll m (Some c) cs
      | Some (n, x) \<Rightarrow>
          if n = 0 then None
          else map_option ((#) x) (execAll m (Some (last (take n (c # cs)))) (drop n (c # cs))))"

section \<open>contentUtils: extractLinks\<close>

record link =
  text_link :: string
  url :: string

text \<open>
  \<^verbatim>\<open>/\[([^\]]*)\]\(([^)]*)\)/\<close> tried at one position. Both starred classes are greedy
  and end exactly where the delimiter they exclude comes, so giving characters back
  never helps: the first group is the text up to the first \<^verbatim>\<open>]\<close>, which must be
  followed by \<^verbatim>\<open>(\<close>, and the second the text up to the first \<^verbatim>\<open>)\<close>. The answer is
  the two groups and the length of the match.
\<close>

definition matchLink :: "string \<Rightarrow> (string \<times> string \<times> nat) option" where
  "matchLink s =
     (case s of
        [] \<Rightarrow> None
      | c # r \<Rightarrow>
          if c \<noteq> CHR ''['' then None
          else
            let t = takeWhile (\<lambda>x. x \<noteq> CHR '']'') r in
            (case drop (length t) r of
               c1 # c2 # r2 \<Rightarrow>
                 if c1 = CHR '']'' \<and> c2 = CHR ''('' then
                   let u = takeWhile (\<lambda>x. x \<noteq> CHR '')'') r2 in
                   (case drop (length u) r2 of
                      c3 # r3 \<Rightarrow>
                        if c3 = CHR '')'' then Some (t, u, length t + length u + 4) else None
                    | [] \<Rightarrow> None)
                 else None
             | _ \<Rightarrow> None))"

definition linkMatcher :: "char option \<Rightarrow> string \<Rightarrow> (nat \<times> link) option" where
  "linkMatcher prev s =
     (case matchLink s of
        None \<Rightarrow> None
      | Some (t, u, n) \<Rightarrow> Some (n, \<lparr>text_link = t, url = u\<rparr>))"

definition extractLinks :: "string \<Rightarrow> link list option" where
  "extractLinks markdownContent = execAll linkMatcher None markdownContent"

text \<open>A text begins with an occurrence \<^verbatim>\<open>[t](u)\<close>: an opening bracket, a text \<open>t\<close>
  without closing bracket, \<^verbatim>\<open>](\<close>, a text \<open>u\<close> without closing parenthesis, and the
  closing parenthesis; \<open>rest\<close> is what follows.\<close>

definition isOccurrence :: "string \<Rightarrow> string \<Rightarrow> string \<Rightarrow> string \<Rightarrow> bool" where
  "isOccurrence s t u rest =
     (s = ''['' @ t @ '']('' @ u @ '')'' @ rest \<and> CHR '']'' \<notin> set t \<and> CHR '')'' \<notin> set u)"

section \<open>dateUtils: getMostRecentDate\<close>

text \<open>
  A \<^verbatim>\<open>Date\<close> is an object: two dates with the same time value are still two
  objects, so the record carries the identity of the object beside its time value.
  \<^verbatim>\<open>getTime()\<close> is an integral number of milliseconds, or NaN for an invalid date
  (\<open>None\<close>). An absent argument (\<^verbatim>\<open>undefined\<close>) is \<open>None\<close> of the option type; every
  Date object is truthy.
\<close>

record date =
  ident :: nat
  getTime :: "int option"

text \<open>\<^verbatim>\<open>a > b\<close> on numbers: false as soon as one side is NaN.\<close>

definition numGt :: "int option \<Rightarrow> int option \<Rightarrow> bool" where
  "numGt a b = (case (a, b) of (Some x, Some y) \<Rightarrow> x > y | _ \<Rightarrow> False)"

fun getMostRecentDate :: "date option \<Rightarrow> date option \<Rightarrow> date option" where
  "getMostRecentDate None None = None"
| "getMostRecentDate None (Some u) = Some u"
| "getMostRecentDate (Some c) None = Some c"
| "getMostRecentDate (Some c) (Some u) =
     (if numGt (getTime u) (getTime c) then Some u else Some c)"

section \<open>pathUtils: getRelativePath\<close>

text \<open>\<^verbatim>\<open>path.replace(/\\/g, '/')\<close>: every backslash becomes a slash.\<close>

definition normalizePath :: "string \<Rightarrow> string" where
  "normalizePath path = map (\<lambda>c. if c = backslash then CHR ''/'' else c) path"

text \<open>
  \<^verbatim>\<open>new RegExp(`^.*?${escaped}/`)\<close>, where escaping makes the base folder name a literal.
  The pattern is anchored at the start of the input (no multiline flag) and its lazy
  \<^verbatim>\<open>.*?\<close> grows one code unit at a time, never over a line terminator, until the
  literal follows. \<open>lit\<close> is the base followed by the slash; the answer is what is left
  behind the match.
\<close>

fun stripToBase :: "string \<Rightarrow> string \<Rightarrow> string option" where
  "stripToBase lit [] = (if prefix lit [] then Some [] else None)"
| "stripToBase lit (c # cs) =
     (if prefix lit (c # cs) then Some (drop (length lit) (c # cs))
      else if isLT c then None
      else stripToBase lit cs)"

definition getRelativePath :: "string \<Rightarrow> string \<Rightarrow> string" where
  "getRelativePath filePath baseFolderName =
     (let normalizedPath = normalizePath filePath;
          normalizedBase = normalizePath baseFolderName
      in if prefix normalizedBase normalizedPath then
           (case drop (length normalizedBase) normalizedPath of
              [] \<Rightarrow> []
            | c # r \<Rightarrow> if c = CHR ''/'' then r else c # r)
         else
           let relativePath =
                 (case stripToBase (normalizedBase @ ''/'') normalizedPath of
                    None \<Rightarrow> normalizedPath
                  | Some r \<Rightarrow> r)
           in if relativePath = [] then normalizedPath else relativePath)"

section \<open>pathUtils: filenameToSlug\<close>

text \<open>
  \<^verbatim>\<open>.replace(/\.[^/.]+$/, '')\<close>: the first position with a dot from which only code
  units other than slash and dot, at least one, run to the end of the input; the pattern
  has no multiline flag, so \<^verbatim>\<open>$\<close> is the end of the input. The match is removed.
\<close>

fun removeExtension :: "string \<Rightarrow> string" where
  "removeExtension [] = []"
| "removeExtension (c # cs) =
     (if c = CHR ''.'' \<and> cs \<noteq> [] \<and> list_all (\<lambda>d. d \<noteq> CHR ''/'' \<and> d \<noteq> CHR ''.'') cs
      then []
      else c # removeExtension cs)"

text \<open>
  \<^verbatim>\<open>/\s+/g\<close> and \<^verbatim>\<open>/-+/g\<close>: a greedy run of one class, at least one code unit long,
  replaced by a fixed text.
\<close>

definition runMatcher :: "(char \<Rightarrow> bool) \<Rightarrow> string \<Rightarrow> matcher" where
  "runMatcher P rep prev s =
     (let run = takeWhile P s in if run = [] then None else Some (length run, rep))"

definition filenameToSlug :: "string \<Rightarrow> string" where
  "filenameToSlug filename =
     trim
       (replaceAll (runMatcher (\<lambda>c. c = CHR ''-'') ''-'') None
         (replaceAll (runMatcher isSpace ''-'') None
           (filter (\<lambda>c. isLower c \<or> isDigit c \<or> isSpace c \<or> c = CHR ''-'')
             (map (\<lambda>c. if c = CHR ''_'' then CHR ''-'' else c)
               (toLowerCase (removeExtension filename))))))"

text \<open>The extension of a file name: what the first step of filenameToSlug takes away.\<close>

definition extension :: "string \<Rightarrow> string" where
  "extension filename = drop (length (removeExtension filename)) filename"

section \<open>contentUtils: getAllHeadings\<close>

record heading =
  level :: nat
  text_heading :: string
  anchor :: string

text \<open>
  \<^verbatim>\<open>/^(#{1,6})\s+(.*)$/gm\<close> tried at one position. At a line start, a run of one to
  six \<^verbatim>\<open>#\<close> (with seven or more the white space cannot follow, however many the
  group gives back), then the greedy \<^verbatim>\<open>\s+\<close>, which takes the whole run of white space,
  line breaks included, then \<^verbatim>\<open>(.*)\<close> up to the next line terminator or the end,
  where \<^verbatim>\<open>$\<close> holds. The answer is the length of the match and the two groups.
\<close>

definition headingMatcher :: "char option \<Rightarrow> string \<Rightarrow> (nat \<times> string \<times> string) option" where
  "headingMatcher prev s =
     (if \<not> atLineStart prev then None
      else
        let hashes = takeWhile (\<lambda>c. c = CHR ''#'') s;
            r = drop (length hashes) s;
            ws = takeWhile isSpace r;
            body = takeWhile (\<lambda>c. \<not> isLT c) (drop (length ws) r)
        in if 1 \<le> length hashes \<and> length hashes \<le> 6 \<and> ws \<noteq> []
           then Some (length hashes + length ws + length body, hashes, body)
           else None)"

text \<open>\<^verbatim>\<open>text.toLowerCase().replace(/[^\w\s-]/g, '').replace(/\s+/g, '-')\<close>\<close>

definition anchorOf :: "string \<Rightarrow> string" where
  "anchorOf t =
     replaceAll (runMatcher isSpace ''-'') None
       (filter (\<lambda>c. isWord c \<or> isSpace c \<or> c = CHR ''-'') (toLowerCase t))"

text \<open>The body of the loop: one match gives one heading, or none above maxLevel.\<close>

definition headingOf :: "int \<Rightarrow> string \<times> string \<Rightarrow> heading list" where
  "headingOf maxLevel m =
     (let level = length (fst m) in
      if int level \<le> maxLevel then
        let t = trim (snd m) in [\<lparr>level = level, text_heading = t, anchor = anchorOf t\<rparr>]
      else [])"

definition getAllHeadings :: "string \<Rightarrow> int \<Rightarrow> heading list option" where
  "getAllHeadings markdownContent maxLevel =
     map_option (\<lambda>ms. concat (map (headingOf maxLevel) ms))
       (execAll headingMatcher None markdownContent)"

section \<open>contentUtils: the patterns of stripMarkdown and getFirstParagraph\<close>

text \<open>\<^verbatim>\<open>/^#{1,6}\s+/gm\<close> replaced by nothing: the marker of a heading with its white space.\<close>

definition headingMarkerMatcher :: matcher where
  "headingMarkerMatcher prev s =
     (if \<not> atLineStart prev then None
      else
        let hashes = takeWhile (\<lambda>c. c = CHR ''#'') s;
            ws = takeWhile isSpace (drop (length hashes) s)
        in if 1 \<le> length hashes \<and> length hashes \<le> 6 \<and> ws \<noteq> []
           then Some (length hashes + length ws, [])
           else None)"

text \<open>\<^verbatim>\<open>/^#{1,6}\s+.*$/gm\<close> replaced by nothing: the whole heading, as far as the
  pattern of getAllHeadings reaches.\<close>

definition headingLineMatcher :: matcher where
  "headingLineMatcher prev s =
     (case headingMatcher prev s of None \<Rightarrow> None | Some (n, g) \<Rightarrow> Some (n, []))"

text \<open>
  An opening literal, a greedy starred class that excludes one code unit, a closing
  literal that begins with that code unit: \<^verbatim>\<open>\*\*([^*]*)\*\*\<close>, \<^verbatim>\<open>\*([^*]*)\*\<close>,
  \<^verbatim>\<open>~~([^~]*)~~\<close> and the pattern of inline code. The class ends where the excluded
  code unit comes, and a shorter class would leave an admitted code unit where the
  closing literal has to start. The answer is the group and the length of the match.
\<close>

definition delimited :: "string \<Rightarrow> char \<Rightarrow> string \<Rightarrow> string \<Rightarrow> (string \<times> nat) option" where
  "delimited opening stop closing s =
     (if prefix opening s then
        let r = drop (length opening) s;
            t = takeWhile (\<lambda>c. c \<noteq> stop) r
        in if prefix closing (drop (length t) r)
           then Some (t, length opening + length t + length closing)
           else None
      else None)"

text \<open>The replacement \<^verbatim>\<open>'$1'\<close> keeps the group.\<close>

definition keepGroup :: "(string \<times> nat) option \<Rightarrow> (nat \<times> string) option" where
  "keepGroup r = (case r of None \<Rightarrow> None | Some (t, n) \<Rightarrow> Some (n, t))"

definition boldMatcher :: matcher where
  "boldMatcher prev s = keepGroup (delimited ''**'' (CHR ''*'') ''**'' s)"

definition italicMatcher :: matcher where
  "italicMatcher prev s = keepGroup (delimited ''*'' (CHR ''*'') ''*'' s)"

definition strikeMatcher :: matcher where
  "strikeMatcher prev s = keepGroup (delimited ''~~'' (CHR ''~'') ''~~'' s)"

text \<open>Inline code: stripMarkdown keeps the group, getFirstParagraph drops the match.\<close>

definition inlineCodeMatcher :: matcher where
  "inlineCodeMatcher prev s = keepGroup (delimited ''`'' (CHR ''`'') ''`'' s)"

definition inlineCodeDropMatcher :: matcher where
  "inlineCodeDropMatcher prev s =
     (case delimited ''`'' (CHR ''`'') ''`'' s of None \<Rightarrow> None | Some (t, n) \<Rightarrow> Some (n, []))"

text \<open>The number of code units before the first occurrence of a literal.\<close>

fun findLit :: "string \<Rightarrow> string \<Rightarrow> nat option" where
  "findLit lit [] = (if prefix lit [] then Some 0 else None)"
| "findLit lit (c # cs) =
     (if prefix lit (c # cs) then Some 0 else map_option Suc (findLit lit cs))"

text \<open>The fenced code block: three backticks, the lazy \<^verbatim>\<open>[\s\S]*?\<close>, which grows over
  any code unit until three backticks follow, and those. Replaced by nothing.\<close>

definition codeBlockMatcher :: matcher where
  "codeBlockMatcher prev s =
     (if prefix ''```'' s then
        (case findLit ''```'' (drop 3 s) of
           None \<Rightarrow> None
         | Some k \<Rightarrow> Some (3 + k + 3, []))
      else None)"

text \<open>\<^verbatim>\<open>/\[([^\]]*)\]\([^)]*\)/g\<close> replaced by \<^verbatim>\<open>'$1'\<close>, and the same behind an
  exclamation mark for images.\<close>

definition linkTextMatcher :: matcher where
  "linkTextMatcher prev s =
     (case matchLink s of None \<Rightarrow> None | Some (t, u, n) \<Rightarrow> Some (n, t))"

definition imageAltMatcher :: matcher where
  "imageAltMatcher prev s =
     (case s of
        [] \<Rightarrow> None
      | c # r \<Rightarrow>
          if c = CHR ''!'' then
            (case matchLink r of None \<Rightarrow> None | Some (t, u, n) \<Rightarrow> Some (Suc n, t))
          else None)"

text \<open>
  \<^verbatim>\<open>/^\s*[-*+]\s+/gm\<close>, \<^verbatim>\<open>/^\s*\d+\.\s+/gm\<close> and \<^verbatim>\<open>/^\s*>\s+/gm\<close>, replaced by
  nothing: at a line start, the whole run of white space (line breaks included), the
  mark, and white space again, at least one code unit of it. \<open>mark\<close> gives the length
  of the mark where it stands at the head of its argument.
\<close>

definition markerMatcher :: "(string \<Rightarrow> nat option) \<Rightarrow> matcher" where
  "markerMatcher mark prev s =
     (if \<not> atLineStart prev then None
      else
        let ws1 = takeWhile isSpace s;
            r = drop (length ws1) s
        in (case mark r of
              None \<Rightarrow> None
            | Some k \<Rightarrow>
                let ws2 = takeWhile isSpace (drop k r)
                in if ws2 = [] then None else Some (length ws1 + k + length ws2, [])))"

definition bulletMark :: "string \<Rightarrow> nat option" where
  "bulletMark r =
     (case r of
        [] \<Rightarrow> None
      | c # _ \<Rightarrow> if c = CHR ''-'' \<or> c = CHR ''*'' \<or> c = CHR ''+'' then Some 1 else None)"

definition numberMark :: "string \<Rightarrow> nat option" where
  "numberMark r =
     (let ds = takeWhile isDigit r in
      if ds \<noteq> [] \<and> prefix ''.'' (drop (length ds) r) then Some (length ds + 1) else None)"

definition quoteMark :: "string \<Rightarrow> nat option" where
  "quoteMark r = (case r of [] \<Rightarrow> None | c # _ \<Rightarrow> if c = CHR ''>'' then Some 1 else None)"

text \<open>
  \<^verbatim>\<open>/\n\s*\n/\<close>: a line feed, white space, a line feed. The greedy \<^verbatim>\<open>\s*\<close> takes the
  whole run of white space and gives back until a line feed follows, so the match ends
  with the last line feed of the run. \<open>afterLastNl\<close> is the number of code units of a
  run up to that line feed, which is counted in.
\<close>

fun afterLastNl :: "string \<Rightarrow> nat option" where
  "afterLastNl [] = None"
| "afterLastNl (c # cs) =
     (case afterLastNl cs of
        Some k \<Rightarrow> Some (Suc k)
      | None \<Rightarrow> if c = nl then Some 1 else None)"

definition blankMatch :: "string \<Rightarrow> nat option" where
  "blankMatch s =
     (case s of
        [] \<Rightarrow> None
      | c # r \<Rightarrow>
          if c = nl then map_option Suc (afterLastNl (takeWhile isSpace r)) else None)"

text \<open>Replaced by one line feed in stripMarkdown.\<close>

definition blankMatcher :: matcher where
  "blankMatcher prev s = map_option (\<lambda>n. (n, [nl])) (blankMatch s)"

section \<open>contentUtils: stripMarkdown\<close>

definition stripMarkdown :: "string \<Rightarrow> string" where
  "stripMarkdown markdownContent =
     (let s1 = replaceAll headingMarkerMatcher None markdownContent;
          s2 = replaceAll boldMatcher None s1;
          s3 = replaceAll italicMatcher None s2;
          s4 = replaceAll strikeMatcher None s3;
          s5 = replaceAll inlineCodeMatcher None s4;
          s6 = replaceAll codeBlockMatcher None s5;
          s7 = replaceAll linkTextMatcher None s6;
          s8 = replaceAll imageAltMatcher None s7;
          s9 = replaceAll (markerMatcher bulletMark) None s8;
          s10 = replaceAll (markerMatcher numberMark) None s9;
          s11 = replaceAll (markerMatcher quoteMark) None s10;
          s12 = replaceAll blankMatcher None s11
      in trim s12)"

section \<open>contentUtils: getFirstParagraph\<close>

text \<open>
  \<^verbatim>\<open>s.split(re)\<close> for a pattern without groups: the pattern is tried at each position
  before the end; a match that is not empty, or that does not stand where the current
  piece begins, closes the piece, and the next piece begins behind it. \<open>acc\<close> holds the
  current piece, last code unit first. The empty string gives one empty piece unless
  the pattern matches it.
\<close>

fun splitFrom :: "(string \<Rightarrow> nat option) \<Rightarrow> string \<Rightarrow> string \<Rightarrow> string list" where
  "splitFrom m acc [] = [rev acc]"
| "splitFrom m acc (c # cs) =
     (case m (c # cs) of
        None \<Rightarrow> splitFrom m (c # acc) cs
      | Some n \<Rightarrow>
          if n = 0 then
            (if acc = [] then splitFrom m [c] cs else rev acc # splitFrom m [c] cs)
          else rev acc # splitFrom m [] (drop n (c # cs)))"

definition split :: "(string \<Rightarrow> nat option) \<Rightarrow> string \<Rightarrow> string list" where
  "split m s =
     (if s = [] then (case m [] of None \<Rightarrow> [[]] | Some n \<Rightarrow> []) else splitFrom m [] s)"

definition getFirstParagraph :: "string \<Rightarrow> string" where
  "getFirstParagraph markdownContent =
     (let c1 = replaceAll headingLineMatcher None markdownContent;
          c2 = replaceAll codeBlockMatcher None c1;
          c3 = replaceAll inlineCodeDropMatcher None c2;
          c4 = replaceAll boldMatcher None c3;
          c5 = replaceAll italicMatcher None c4;
          c6 = replaceAll linkTextMatcher None c5;
          cleaned = trim c6;
          paragraphs = split blankMatch cleaned
      in (case find (\<lambda>p. length (trim p) > 0) paragraphs of
            None \<Rightarrow> []
          | Some p \<Rightarrow> p))"

section \<open>dateUtils: getCreationDate\<close>

text \<open>
  The alternatives of the label group of
  \<^verbatim>\<open>/(?:\*\*Date:?\*\*|Date:|Created:|...|Date | Date Created: |...| ) (.+?)(?:\n|$)/m\<close>,
  in the order in which the pattern tries them. The first alternative has an optional
  colon, which is tried with the colon first. The last alternative, between the final bar
  and the closing parenthesis, is a single space.
\<close>

definition creationLabels :: "string list" where
  "creationLabels =
     [''**Date:**'', ''**Date**'', ''Date:'', ''Created:'', ''Created At:'', ''Created On:'',
      ''Created Date:'', ''Created Time:'', ''Created At'', ''Created On'', ''Created Date'',
      ''Created Time'', ''Date '', '' Date Created: '', '' Date Created '',
      '' Date Created On '', '' Date Created At '', '' Date Created On: '',
      '' Date Created Time '', '' '']"

text \<open>
  Behind the label: a space, then the lazy \<^verbatim>\<open>(.+?)\<close>, which grows over code units
  that are no line terminators until a line feed or the end of a line follows, so it
  takes the rest of the line, and at least one code unit. The answer is the group.
\<close>

definition restOfLine :: "string \<Rightarrow> string option" where
  "restOfLine r =
     (case r of
        [] \<Rightarrow> None
      | c # r' \<Rightarrow>
          if c = CHR '' '' then
            (let cap = takeWhile (\<lambda>x. \<not> isLT x) r' in
             if cap = [] then None else Some cap)
          else None)"

text \<open>The pattern at one position: the first alternative, in order, behind which the
  rest of the pattern matches.\<close>

fun tryLabels :: "string list \<Rightarrow> string \<Rightarrow> string option" where
  "tryLabels [] s = None"
| "tryLabels (l # ls) s =
     (if prefix l s then
        (case restOfLine (drop (length l) s) of
           Some cap \<Rightarrow> Some cap
         | None \<Rightarrow> tryLabels ls s)
      else tryLabels ls s)"

text \<open>\<^verbatim>\<open>s.match(re)\<close> without the global flag: the leftmost position where the
  pattern matches.\<close>

fun searchFrom :: "(string \<Rightarrow> 'a option) \<Rightarrow> string \<Rightarrow> 'a option" where
  "searchFrom m [] = m []"
| "searchFrom m (c # cs) =
     (case m (c # cs) of Some r \<Rightarrow> Some r | None \<Rightarrow> searchFrom m cs)"

text \<open>
  \<^verbatim>\<open>new Date(dateStr)\<close> is the host's parser, which reads more formats than the
  language fixes; the function takes it as the parameter \<open>newDate\<close>. An invalid date has
  the time value NaN.
\<close>

definition getCreationDate :: "(string \<Rightarrow> date) \<Rightarrow> string \<Rightarrow> date option" where
  "getCreationDate newDate content =
     (case searchFrom (tryLabels creationLabels) content of
        None \<Rightarrow> None
      | Some cap \<Rightarrow>
          let dateStr = trim cap;
              parsedDate = newDate dateStr
          in if getTime parsedDate = None then None else Some parsedDate)"

text \<open>A parser for the examples: it reads one ISO date, as every host does (midnight
  UTC of 7 December 2024, in milliseconds), and finds every other string invalid.\<close>

definition sampleNewDate :: "string \<Rightarrow> date" where
  "sampleNewDate s =
     \<lparr>ident = 0, getTime = (if s = ''2024-12-07'' then Some 1733529600000 else None)\<rparr>"

text \<open>The labels that the pattern has by design: all but the single space.\<close>

definition properLabels :: "string list" where
  "properLabels = butlast creationLabels"

section \<open>validationUtils: isValidMarkdown\<close>

text \<open>\<^verbatim>\<open>re.test(s)\<close>: the pattern matches at some position; the matcher is told the
  code unit before the position.\<close>

fun testFrom :: "(char option \<Rightarrow> string \<Rightarrow> bool) \<Rightarrow> char option \<Rightarrow> string \<Rightarrow> bool" where
  "testFrom m prev [] = m prev []"
| "testFrom m prev (c # cs) = (m prev (c # cs) \<or> testFrom m (Some c) cs)"

text \<open>
  \<^verbatim>\<open>/^#{1,6}\s+.+$/m\<close>: behind the white space the line must go on with at least one
  code unit. The greedy \<^verbatim>\<open>\s+\<close> first takes the whole run; where nothing of the line
  follows, it gives back one code unit at a time, and \<^verbatim>\<open>.+\<close> may then start on a
  space of the run. \<open>wsBack r k\<close> tries \<open>k\<close>, \<open>k - 1\<close>, ..., 1 code units of white space
  and answers with the length of the white space and of \<^verbatim>\<open>.+\<close> together.
\<close>

fun wsBack :: "string \<Rightarrow> nat \<Rightarrow> nat option" where
  "wsBack r 0 = None"
| "wsBack r (Suc k) =
     (let run = takeWhile (\<lambda>c. \<not> isLT c) (drop (Suc k) r) in
      if run \<noteq> [] then Some (Suc k + length run) else wsBack r k)"

definition headingTextAt :: "char option \<Rightarrow> string \<Rightarrow> nat option" where
  "headingTextAt prev s =
     (if \<not> atLineStart prev then None
      else
        let hashes = takeWhile (\<lambda>c. c = CHR ''#'') s;
            r = drop (length hashes) s;
            ws = takeWhile isSpace r
        in if 1 \<le> length hashes \<and> length hashes \<le> 6
           then map_option (\<lambda>n. length hashes + n) (wsBack r (length ws))
           else None)"

text \<open>
  \<open>lineHasThen lit cont s\<close>: \<^verbatim>\<open>.*\<close> followed by a literal, followed by what \<open>cont\<close>
  stands for. For a test only the existence of a match counts: some number of code units
  that are no line terminators, then the literal, then the rest.
\<close>

fun lineHasThen :: "string \<Rightarrow> (string \<Rightarrow> bool) \<Rightarrow> string \<Rightarrow> bool" where
  "lineHasThen lit cont [] = (prefix lit [] \<and> cont [])"
| "lineHasThen lit cont (c # cs) =
     ((prefix lit (c # cs) \<and> cont (drop (length lit) (c # cs)))
      \<or> (\<not> isLT c \<and> lineHasThen lit cont cs))"

definition lineHas :: "string \<Rightarrow> string \<Rightarrow> bool" where
  "lineHas lit s = lineHasThen lit (\<lambda>rest. True) s"

text \<open>\<^verbatim>\<open>/(\*\*.*\*\*|\*.*\*|`.*`|\[.*\]\(.*\)|^[-*+]\s+)/m\<close> at one position.\<close>

definition syntaxAt :: "char option \<Rightarrow> string \<Rightarrow> bool" where
  "syntaxAt prev s =
     ((prefix ''**'' s \<and> lineHas ''**'' (drop 2 s))
      \<or> (prefix ''*'' s \<and> lineHas ''*'' (drop 1 s))
      \<or> (prefix ''`'' s \<and> lineHas ''`'' (drop 1 s))
      \<or> (prefix ''['' s \<and> lineHasThen '']('' (lineHas '')'') (drop 1 s))
      \<or> (atLineStart prev \<and>
          (case s of
             c # d # rest \<Rightarrow> (c = CHR ''-'' \<or> c = CHR ''*'' \<or> c = CHR ''+'') \<and> isSpace d
           | _ \<Rightarrow> False)))"

definition isValidMarkdown :: "string \<Rightarrow> bool" where
  "isValidMarkdown content =
     (if content = [] then False
      else
        let hasHeadings = testFrom (\<lambda>prev s. headingTextAt prev s \<noteq> None) None content;
            hasText = (length (trim content) > 0);
            hasMarkdownSyntax = testFrom syntaxAt None content
        in hasText \<and> (hasHeadings \<or> hasMarkdownSyntax \<or> length content > 10))"

section \<open>validationUtils: validateFrontmatter\<close>

record frontmatterResult =
  isValid_fm :: bool
  frontmatter :: "(string \<rightharpoonup> string) option"
  content_fm :: "string option"
  error_fm :: "string option"

text \<open>
  \<^verbatim>\<open>/^---\s*\n([\s\S]*?)\n---\s*\n([\s\S]*)$/\<close>, behind the opening line. The lazy first
  group grows until a line feed and three hyphens follow behind which the white space
  holds a line feed; the greedy \<^verbatim>\<open>\s*\<close> there ends before the last line feed of the
  run, and the second group is all that follows. \<open>acc\<close> is the first group so far, last
  code unit first.
\<close>

fun findClose :: "string \<Rightarrow> string \<Rightarrow> (string \<times> string) option" where
  "findClose acc [] = None"
| "findClose acc (c # cs) =
     (if prefix (nl # ''---'') (c # cs) then
        (case afterLastNl (takeWhile isSpace (drop 4 (c # cs))) of
           Some k \<Rightarrow> Some (rev acc, drop (4 + k) (c # cs))
         | None \<Rightarrow> findClose (c # acc) cs)
      else findClose (c # acc) cs)"

text \<open>The opening line: \<^verbatim>\<open>\s*\<close> takes the whole run of white space behind the three
  hyphens and gives back until a line feed follows behind which the rest matches.
  \<open>openAt r k\<close> tries the line feeds among the first \<open>k\<close> code units of \<open>r\<close>, the last
  one first.\<close>

fun openAt :: "string \<Rightarrow> nat \<Rightarrow> (string \<times> string) option" where
  "openAt r 0 = None"
| "openAt r (Suc i) =
     (if r ! i = nl then
        (case findClose [] (drop (Suc i) r) of
           Some g \<Rightarrow> Some g
         | None \<Rightarrow> openAt r i)
      else openAt r i)"

definition frontmatterMatch :: "string \<Rightarrow> (string \<times> string) option" where
  "frontmatterMatch content =
     (if prefix ''---'' content then
        let r = drop 3 content in openAt r (length (takeWhile isSpace r))
      else None)"

text \<open>\<^verbatim>\<open>s.split(sep)\<close> for a separator of one code unit.\<close>

fun splitOn :: "char \<Rightarrow> string \<Rightarrow> string list" where
  "splitOn d [] = [[]]"
| "splitOn d (c # cs) =
     (if c = d then [] # splitOn d cs
      else (case splitOn d cs of
              [] \<Rightarrow> [[c]]
            | p # ps \<Rightarrow> (c # p) # ps))"

text \<open>\<^verbatim>\<open>value.replace(/^["']|["']$/g, '')\<close>: a quote at the start and a quote at the end
  are removed.\<close>

definition isQuote :: "char \<Rightarrow> bool" where
  "isQuote c = (c = dquote \<or> c = CHR 0x27)"

definition stripQuotes :: "string \<Rightarrow> string" where
  "stripQuotes v =
     (let v1 = (case v of [] \<Rightarrow> [] | c # r \<Rightarrow> if isQuote c then r else c # r)
      in if v1 \<noteq> [] \<and> isQuote (last v1) then butlast v1 else v1)"

text \<open>The body of the loop over the lines of the front matter. Assigning a string to the
  key \<^verbatim>\<open>__proto__\<close> of an object leaves the object as it is.\<close>

definition frontmatterLine :: "(string \<rightharpoonup> string) \<Rightarrow> string \<Rightarrow> (string \<rightharpoonup> string)" where
  "frontmatterLine fm line =
     (if trim line = [] then fm
      else if CHR '':'' \<notin> set line then fm
      else
        let colonIndex = length (takeWhile (\<lambda>c. c \<noteq> CHR '':'') line);
            key = trim (take colonIndex line);
            v = trim (drop (colonIndex + 1) line);
            cleanValue = stripQuotes v
        in if key = ''__proto__'' then fm else fm(key \<mapsto> cleanValue))"

text \<open>Nothing in the \<^verbatim>\<open>try\<close> block throws, so the \<^verbatim>\<open>catch\<close> branch has no
  counterpart here.\<close>

definition validateFrontmatter :: "string \<Rightarrow> frontmatterResult" where
  "validateFrontmatter content =
     (case frontmatterMatch content of
        None \<Rightarrow>
          \<lparr>isValid_fm = True, frontmatter = None, content_fm = Some content, error_fm = None\<rparr>
      | Some (frontmatterText, markdownContent) \<Rightarrow>
          \<lparr>isValid_fm = True,
           frontmatter = Some (foldl frontmatterLine Map.empty (splitOn nl frontmatterText)),
           content_fm = Some markdownContent,
           error_fm = None\<rparr>)"

section \<open>validationUtils: validateMarkdownLinks and validateMarkdownImages\<close>

text \<open>The three character classes of the pattern for external addresses.\<close>

definition isAlnum :: "char \<Rightarrow> bool" where
  "isAlnum c = (isLower c \<or> isUpper c \<or> isDigit c)"

definition hostChar :: "char \<Rightarrow> bool" where
  "hostChar c = (isAlnum c \<or> c \<in> set ''-@:%._+~#='')"

definition tldChar :: "char \<Rightarrow> bool" where
  "tldChar c = (isAlnum c \<or> c = CHR ''('' \<or> c = CHR '')'')"

definition pathChar :: "char \<Rightarrow> bool" where
  "pathChar c = (isAlnum c \<or> c \<in> set ''-()@:%_+.~#?&/='')"

text \<open>
  \<^verbatim>\<open>[-a-zA-Z0-9@:%._\+~#=]{1,256}\.[a-zA-Z0-9()]{1,6}\b([-a-zA-Z0-9()@:%_\+.~#?&//=]*)$\<close>
  on the rest of the address: \<open>i\<close> code units of the first class, a dot, \<open>j\<close> of the
  second, a word boundary, and the third class to the end. The test holds when some
  \<open>i\<close> and \<open>j\<close> fit.
\<close>

definition wordBoundary :: "char \<Rightarrow> string \<Rightarrow> bool" where
  "wordBoundary b rest =
     (isWord b \<noteq> (case rest of [] \<Rightarrow> False | c # cs \<Rightarrow> isWord c))"

definition hostFits :: "string \<Rightarrow> nat \<Rightarrow> nat \<Rightarrow> bool" where
  "hostFits r i j =
     (i + 1 + j \<le> length r
      \<and> list_all hostChar (take i r)
      \<and> r ! i = CHR ''.''
      \<and> list_all tldChar (take j (drop (i + 1) r))
      \<and> wordBoundary (r ! (i + j)) (drop (i + 1 + j) r)
      \<and> list_all pathChar (drop (i + 1 + j) r))"

definition hostPart :: "string \<Rightarrow> bool" where
  "hostPart r =
     list_ex (\<lambda>i. list_ex (\<lambda>j. hostFits r i j) [1..<7]) [1..<Suc (min 256 (length r))]"

text \<open>\<^verbatim>\<open>^https?:\/\/(www\.)?\<close> before it: the scheme, and \<^verbatim>\<open>www.\<close> taken or left.\<close>

definition urlPattern :: "string \<Rightarrow> bool" where
  "urlPattern u =
     (let afterScheme =
            (if prefix ''https://'' u then Some (drop 8 u)
             else if prefix ''http://'' u then Some (drop 7 u)
             else None)
      in (case afterScheme of
            None \<Rightarrow> False
          | Some r \<Rightarrow> (prefix ''www.'' r \<and> hostPart (drop 4 r)) \<or> hostPart r))"

record linkCheck =
  text_lc :: string
  url_lc :: string
  isValid_lc :: bool
  error_lc :: "string option"

definition checkLink :: "link \<Rightarrow> linkCheck" where
  "checkLink l =
     (let u = url l;
          verdict =
            (if u = [] \<or> trim u = [] then Some ''Empty URL''
             else if prefix ''http://'' u \<or> prefix ''https://'' u then
               (if \<not> urlPattern u then Some ''Invalid URL format'' else None)
             else if prefix ''#'' u then
               (if length u = 1 then Some ''Empty anchor'' else None)
             else if prefix ''/'' u \<or> CHR ''.'' \<in> set u then
               (if sublist ''..'' u \<and> sublist ''./'' u
                then Some ''Potentially unsafe relative path'' else None)
             else None)
      in \<lparr>text_lc = text_link l, url_lc = u, isValid_lc = (verdict = None), error_lc = verdict\<rparr>)"

definition validateMarkdownLinks :: "string \<Rightarrow> linkCheck list option" where
  "validateMarkdownLinks content =
     map_option (map checkLink) (execAll linkMatcher None content)"

record image =
  alt :: string
  src :: string

text \<open>\<^verbatim>\<open>/!\[([^\]]*)\]\(([^)]*)\)/g\<close>: the pattern of links behind an exclamation mark.\<close>

definition imageMatcher :: "char option \<Rightarrow> string \<Rightarrow> (nat \<times> image) option" where
  "imageMatcher prev s =
     (case s of
        [] \<Rightarrow> None
      | c # r \<Rightarrow>
          if c = CHR ''!'' then
            (case matchLink r of
               None \<Rightarrow> None
             | Some (t, u, n) \<Rightarrow> Some (Suc n, \<lparr>alt = t, src = u\<rparr>))
          else None)"

record imageCheck =
  alt_ic :: string
  src_ic :: string
  isValid_ic :: bool
  error_ic :: "string option"

text \<open>The check of the source comes second and overwrites the error of the alt text.\<close>

definition checkImage :: "image \<Rightarrow> imageCheck" where
  "checkImage im =
     (let a = alt im; u = src im;
          e1 = (if a = [] \<or> trim a = [] then Some ''Missing alt text'' else None);
          e2 = (if u = [] \<or> trim u = [] then Some ''Missing image source''
                else if prefix ''http://'' u \<or> prefix ''https://'' u then
                  (if \<not> urlPattern u then Some ''Invalid image URL format'' else e1)
                else e1)
      in \<lparr>alt_ic = a, src_ic = u, isValid_ic = (e2 = None), error_ic = e2\<rparr>)"

definition validateMarkdownImages :: "string \<Rightarrow> imageCheck list option" where
  "validateMarkdownImages content =
     map_option (map checkImage) (execAll imageMatcher None content)"

section \<open>validationUtils: validateMarkdownTables\<close>

text \<open>
  \<^verbatim>\<open>/^\|?[\s]*:?-+:?[\s]*\|/\<close> on a trimmed line, from its start: an optional bar, white
  space, an optional colon, hyphens, an optional colon, white space, a bar. Each part
  takes what it can, and nothing it gives back lets the next part match.
\<close>

definition skipOne :: "char \<Rightarrow> string \<Rightarrow> string" where
  "skipOne d s = (case s of [] \<Rightarrow> [] | c # r \<Rightarrow> if c = d then r else c # r)"

definition isSeparatorLine :: "string \<Rightarrow> bool" where
  "isSeparatorLine line =
     (let s1 = skipOne (CHR ''|'') line;
          s2 = dropWhile isSpace s1;
          s3 = skipOne (CHR '':'') s2;
          dashes = takeWhile (\<lambda>c. c = CHR ''-'') s3;
          s4 = skipOne (CHR '':'') (drop (length dashes) s3);
          s5 = dropWhile isSpace s4
      in dashes \<noteq> [] \<and> prefix ''|'' s5)"

text \<open>The decimal digits of a number, as a template literal writes it.\<close>

fun showNat :: "nat \<Rightarrow> string" where
  "showNat n =
     (if n < 10 then [char_of (48 + n)]
      else showNat (n div 10) @ [char_of (48 + n mod 10)])"

record tableCheck =
  lineNumber :: nat
  isValid_tc :: bool
  error_tc :: "string option"

text \<open>\<^verbatim>\<open>line.split('|').filter(cell => cell.trim() !== '').length\<close>\<close>

definition countCols :: "string \<Rightarrow> nat" where
  "countCols line = length (filter (\<lambda>cell. trim cell \<noteq> []) (splitOn (CHR ''|'') line))"

text \<open>The body of the loop for the line of index \<open>i\<close>.\<close>

definition checkTableLine :: "string list \<Rightarrow> nat \<Rightarrow> tableCheck list" where
  "checkTableLine lines i =
     (let line = trim (lines ! i) in
      if isSeparatorLine line then
        let headerLine = (if i > 0 then trim (lines ! (i - 1)) else [])
        in if headerLine = [] \<or> CHR ''|'' \<notin> set headerLine then
             [\<lparr>lineNumber = i + 1, isValid_tc = False,
               error_tc = Some ''Table separator without header row''\<rparr>]
           else
             let headerCols = countCols headerLine;
                 separatorCols = countCols line
             in if headerCols \<noteq> separatorCols then
                  [\<lparr>lineNumber = i + 1, isValid_tc = False,
                    error_tc = Some (''Column count mismatch: header has '' @ showNat headerCols
                                     @ '', separator has '' @ showNat separatorCols)\<rparr>]
                else [\<lparr>lineNumber = i + 1, isValid_tc = True, error_tc = None\<rparr>]
      else [])"

definition validateMarkdownTables :: "string \<Rightarrow> tableCheck list" where
  "validateMarkdownTables content =
     (let lines = splitOn nl content
      in concat (map (checkTableLine lines) [0..<length lines]))"

section \<open>validationUtils: validateMarkdown\<close>

record stats =
  wordCount :: nat
  headingCount :: nat
  linkCount :: nat
  imageCount :: nat

record report =
  isValid :: bool
  errors :: "string list"
  warnings :: "string list"
  stats :: stats

text \<open>\<^verbatim>\<open>(s.match(/re/g) || []).length\<close>: the matches are found as the global replacement
  finds them, and counted.\<close>

fun countMatches :: "(char option \<Rightarrow> string \<Rightarrow> nat option) \<Rightarrow> char option \<Rightarrow> string \<Rightarrow> nat" where
  "countMatches m prev [] = (case m prev [] of Some n \<Rightarrow> 1 | None \<Rightarrow> 0)"
| "countMatches m prev (c # cs) =
     (case m prev (c # cs) of
        None \<Rightarrow> countMatches m (Some c) cs
      | Some n \<Rightarrow>
          if n = 0 then Suc (countMatches m (Some c) cs)
          else Suc (countMatches m (Some (last (take n (c # cs)))) (drop n (c # cs))))"

text \<open>\<^verbatim>\<open>/\s+/\<close> as the separator of a split.\<close>

definition spaceRun :: "string \<Rightarrow> nat option" where
  "spaceRun s = (let run = takeWhile isSpace s in if run = [] then None else Some (length run))"

text \<open>The text that a template literal writes for an optional string.\<close>

definition showError :: "string option \<Rightarrow> string" where
  "showError e = (case e of None \<Rightarrow> ''undefined'' | Some msg \<Rightarrow> msg)"

definition linkWarning :: "linkCheck \<Rightarrow> string" where
  "linkWarning r = ''Invalid link '' @ [dquote] @ text_lc r @ [dquote] @ '': '' @ showError (error_lc r)"

definition imageWarning :: "imageCheck \<Rightarrow> string" where
  "imageWarning r = ''Invalid image '' @ [dquote] @ alt_ic r @ [dquote] @ '': '' @ showError (error_ic r)"

definition tableWarning :: "tableCheck \<Rightarrow> string" where
  "tableWarning r = ''Table error at line '' @ showNat (lineNumber r) @ '': '' @ showError (error_tc r)"

text \<open>The two loops over matches end for every input, as shown below; \<open>None\<close> stands
  for a loop that does not.\<close>

definition validateMarkdown :: "string \<Rightarrow> report option" where
  "validateMarkdown content =
     (let errors1 = (if \<not> isValidMarkdown content
                     then [''Content does not appear to be valid markdown''] else []);
          frontmatterResult = validateFrontmatter content;
          errors2 = errors1 @ (if \<not> isValid_fm frontmatterResult
                               then [''Frontmatter error: '' @ showError (error_fm frontmatterResult)]
                               else [])
      in (case validateMarkdownLinks content of
            None \<Rightarrow> None
          | Some linkResults \<Rightarrow>
              let warnings1 = map linkWarning (filter (\<lambda>r. \<not> isValid_lc r) linkResults)
              in (case validateMarkdownImages content of
                    None \<Rightarrow> None
                  | Some imageResults \<Rightarrow>
                      let warnings2 = warnings1
                            @ map imageWarning (filter (\<lambda>r. \<not> isValid_ic r) imageResults);
                          tableResults = validateMarkdownTables content;
                          warnings3 = warnings2
                            @ map tableWarning (filter (\<lambda>r. \<not> isValid_tc r) tableResults);
                          headings = countMatches headingTextAt None content;
                          links = countMatches (\<lambda>prev s. map_option (\<lambda>(t, u, n). n) (matchLink s)) None content;
                          images = countMatches (\<lambda>prev s. map_option fst (imageMatcher prev s)) None content;
                          wordsList = filter (\<lambda>w. length w > 0) (split spaceRun content)
                      in Some \<lparr>isValid = (length errors2 = 0),
                               errors = errors2,
                               warnings = warnings3,
                               stats = \<lparr>wordCount = length wordsList,
                                        headingCount = headings,
                                        linkCount = links,
                                        imageCount = images\<rparr>\<rparr>)))"

section \<open>Notions used in the proofs\<close>

text \<open>The alphabet of a slug.\<close>

definition slugChar :: "char \<Rightarrow> bool" where
  "slugChar c = (isLower c \<or> isDigit c \<or> c = CHR ''-'')"

text \<open>No two occurrences of \<open>h\<close> side by side.\<close>

fun noDouble :: "char \<Rightarrow> string \<Rightarrow> bool" where
  "noDouble h [] = True"
| "noDouble h [c] = True"
| "noDouble h (c # d # cs) = (\<not> (c = h \<and> d = h) \<and> noDouble h (d # cs))"

text \<open>filenameToSlug behind its first step.\<close>

definition slugTail :: "string \<Rightarrow> string" where
  "slugTail stem =
     trim
       (replaceAll (runMatcher (\<lambda>c. c = CHR ''-'') ''-'') None
         (replaceAll (runMatcher isSpace ''-'') None
           (filter (\<lambda>c. isLower c \<or> isDigit c \<or> isSpace c \<or> c = CHR ''-'')
             (map (\<lambda>c. if c = CHR ''_'' then CHR ''-'' else c)
               (toLowerCase stem)))))"



text \<open>The text that getFirstParagraph splits into blocks.\<close>

definition cleanedText :: "string \<Rightarrow> string" where
  "cleanedText markdownContent =
     trim (replaceAll linkTextMatcher None
       (replaceAll italicMatcher None
         (replaceAll boldMatcher None
           (replaceAll inlineCodeDropMatcher None
             (replaceAll codeBlockMatcher None
               (replaceAll headingLineMatcher None markdownContent))))))"

text \<open>A text ends in a bare marker: its last line is one to six \<^verbatim>\<open>#\<close> and nothing
  else. \<open>prev\<close> is the code unit before the text, for the case that the marker is all
  of it.\<close>

definition bareTail :: "char option \<Rightarrow> string \<Rightarrow> bool" where
  "bareTail prev q =
     (let k = length (takeWhile (\<lambda>c. c = CHR ''#'') (rev q));
          b = take (length q - k) q
      in 1 \<le> k \<and> k \<le> 6 \<and> (if b = [] then atLineStart prev else isLT (last b)))"

text \<open>A stretch of text through which the scan for headings passes without a match
  running over its end: white space that ends in a line terminator, before it nothing or
  a text that ends in a code unit other than white space, but not in a bare marker.\<close>

definition passable :: "char option \<Rightarrow> string \<Rightarrow> bool" where
  "passable prev u =
     (\<exists>q w. u = q @ w \<and> (q = [] \<or> \<not> isSpace (last q)) \<and> \<not> bareTail prev q
            \<and> w \<noteq> [] \<and> (\<forall>x\<in>set w. isSpace x) \<and> isLT (last w))"

section \<open>getMostRecentDate\<close>

text \<open>
  C9. When both dates are present and their time values are equal, getMostRecentDate
  returns the createdAt argument; the updatedAt argument is returned, as an object
  different from createdAt, only when its time value is strictly greater.
\<close>

theorem getMostRecentDate_tie:
  "(getTime c = getTime u \<longrightarrow> getMostRecentDate (Some c) (Some u) = Some c)
   \<and> (getMostRecentDate (Some c) (Some u) = Some u \<and> u \<noteq> c
        \<longrightarrow> numGt (getTime u) (getTime c))"
  by (auto simp: numGt_def split: option.splits)

theorem getMostRecentDate_tie_witness:
  "getTime \<lparr>ident = 1, getTime = Some 5\<rparr> = getTime \<lparr>ident = 2, getTime = Some 5\<rparr>
   \<and> getMostRecentDate (Some \<lparr>ident = 1, getTime = Some 5\<rparr>)
        (Some \<lparr>ident = 2, getTime = Some 5\<rparr>) = Some \<lparr>ident = 1, getTime = Some 5\<rparr>"
  using getMostRecentDate_tie [of "\<lparr>ident = 1, getTime = Some 5\<rparr>" "\<lparr>ident = 2, getTime = Some 5\<rparr>"]
  by simp

section \<open>The exec loop and extractLinks\<close>

lemma execAll_total:
  assumes pos: "\<And>p t n x. m p t = Some (n, x) \<Longrightarrow> 0 < n \<and> n \<le> length t"
  shows "\<exists>ls. execAll m prev s = Some ls"
proof (induction "length s" arbitrary: s prev rule: less_induct)
  case less
  show ?case
  proof (cases s)
    case Nil
    then show ?thesis using pos [of prev "[]"] by (cases "m prev []") auto
  next
    case (Cons c cs)
    show ?thesis
    proof (cases "m prev (c # cs)")
      case None
      then show ?thesis using less [of cs "Some c"] Cons by simp
    next
      case (Some a)
      obtain n x where a: "a = (n, x)" by (cases a)
      have n: "0 < n" using pos Some a by blast
      have "length (drop n (c # cs)) < length s" using n Cons by simp
      from less [OF this] obtain ls
        where "execAll m (Some (last (take n (c # cs)))) (drop n (c # cs)) = Some ls" by blast
      then show ?thesis using Some a n Cons by simp
    qed
  qed
qed

lemma execAll_prev:
  assumes ign: "\<And>p q t. m p t = m q t"
  shows "execAll m p s = execAll m q s"
proof (cases s)
  case Nil
  then show ?thesis using ign [of p "[]" q] by simp
next
  case (Cons c cs)
  then show ?thesis using ign [of p "c # cs" q] by simp
qed

lemma execAll_skip:
  assumes "\<And>p t. t \<noteq> [] \<Longrightarrow> hd t \<in> set pre \<Longrightarrow> m p t = None"
  shows "pre \<noteq> [] \<Longrightarrow> execAll m p (pre @ s) = execAll m (Some (last pre)) s"
  using assms
proof (induction pre arbitrary: p)
  case Nil
  then show ?case by simp
next
  case (Cons a pre)
  have "m p (a # pre @ s) = None" using Cons.prems(2) [of "a # pre @ s" p] by simp
  then show ?case using Cons by (cases "pre = []") auto
qed

lemma matchLink_hd: "matchLink s = Some r \<Longrightarrow> s \<noteq> [] \<and> hd s = CHR ''[''"
  by (auto simp: matchLink_def split: list.splits if_splits)

lemma matchLink_occurrence:
  assumes "CHR '']'' \<notin> set t" "CHR '')'' \<notin> set u"
  shows "matchLink (CHR ''['' # t @ '']('' @ u @ CHR '')'' # rest) = Some (t, u, length t + length u + 4)"
proof -
  have t: "takeWhile (\<lambda>x. x \<noteq> CHR '']'') (t @ CHR '']'' # CHR ''('' # u @ CHR '')'' # rest) = t"
    using assms(1) by (subst takeWhile_append2) auto
  have u: "takeWhile (\<lambda>x. x \<noteq> CHR '')'') (u @ CHR '')'' # rest) = u"
    using assms(2) by (subst takeWhile_append2) auto
  show ?thesis by (simp add: matchLink_def t u Let_def)
qed

lemma matchLink_pos: "matchLink s = Some (t, u, n) \<Longrightarrow> 0 < n \<and> n \<le> length s"
proof -
  assume a: "matchLink s = Some (t, u, n)"
  then obtain r where s: "s = CHR ''['' # r"
    by (auto simp: matchLink_def split: list.splits if_splits)
  let ?t = "takeWhile (\<lambda>x. x \<noteq> CHR '']'') r"
  from a s obtain r2 where r2: "drop (length ?t) r = CHR '']'' # CHR ''('' # r2"
    by (auto simp: matchLink_def Let_def split: list.splits if_splits)
  let ?u = "takeWhile (\<lambda>x. x \<noteq> CHR '')'') r2"
  from a s r2 obtain r3 where r3: "drop (length ?u) r2 = CHR '')'' # r3"
    by (auto simp: matchLink_def Let_def split: list.splits if_splits)
  from a s r2 r3 have n: "n = length ?t + length ?u + 4"
    by (auto simp: matchLink_def Let_def split: list.splits if_splits)
  have "length r = length ?t + length (drop (length ?t) r)"
    by (simp add: length_takeWhile_le)
  moreover have "length r2 = length ?u + length (drop (length ?u) r2)"
    by (simp add: length_takeWhile_le)
  ultimately have "length r = length ?t + 2 + length ?u + 1 + length r3"
    using r2 r3 by simp
  then show ?thesis using n s by simp
qed

lemma linkMatcher_pos: "linkMatcher p t = Some (n, x) \<Longrightarrow> 0 < n \<and> n \<le> length t"
  by (auto simp: linkMatcher_def split: option.splits dest: matchLink_pos)

lemma linkMatcher_skip: "t \<noteq> [] \<Longrightarrow> hd t \<noteq> CHR ''['' \<Longrightarrow> linkMatcher p t = None"
  by (auto simp: linkMatcher_def split: option.splits dest: matchLink_hd)

lemma extractLinks_total: "\<exists>ls. extractLinks s = Some ls"
  unfolding extractLinks_def by (rule execAll_total) (rule linkMatcher_pos)

lemma takeWhile_stop:
  "drop (length (takeWhile P r)) r = c # r' \<Longrightarrow> r = takeWhile P r @ c # r' \<and> \<not> P c"
proof -
  assume a: "drop (length (takeWhile P r)) r = c # r'"
  then have d: "dropWhile P r = c # r'" by (simp add: dropWhile_eq_drop)
  then have "\<not> P c" using hd_dropWhile [of P r] by auto
  moreover have "r = takeWhile P r @ c # r'" using d by (metis takeWhile_dropWhile_id)
  ultimately show ?thesis by simp
qed

lemma matchLink_Some_occurrence:
  assumes "matchLink s = Some (t, u, n)"
  shows "\<exists>rest. isOccurrence s t u rest \<and> n = length t + length u + 4 \<and> drop n s = rest"
proof -
  obtain r where s: "s = CHR ''['' # r"
    using assms by (auto simp: matchLink_def split: list.splits if_splits)
  let ?t = "takeWhile (\<lambda>x. x \<noteq> CHR '']'') r"
  from assms s obtain r2 where r2: "drop (length ?t) r = CHR '']'' # CHR ''('' # r2"
    by (auto simp: matchLink_def Let_def split: list.splits if_splits)
  let ?u = "takeWhile (\<lambda>x. x \<noteq> CHR '')'') r2"
  from assms s r2 obtain r3 where r3: "drop (length ?u) r2 = CHR '')'' # r3"
    by (auto simp: matchLink_def Let_def split: list.splits if_splits)
  from assms s r2 r3 have v: "t = ?t" "u = ?u" "n = length ?t + length ?u + 4"
    by (auto simp: matchLink_def Let_def split: list.splits if_splits)
  have 1: "r = ?t @ CHR '']'' # CHR ''('' # r2" using takeWhile_stop [OF r2] by simp
  have 2: "r2 = ?u @ CHR '')'' # r3" using takeWhile_stop [OF r3] by simp
  have e: "s = (CHR ''['' # ?t @ CHR '']'' # CHR ''('' # ?u @ [CHR '')'']) @ r3"
    by (subst s, subst 1, subst 2) simp
  have nt: "CHR '']'' \<notin> set ?t" using set_takeWhileD by fastforce
  have nu: "CHR '')'' \<notin> set ?u" using set_takeWhileD by fastforce
  have l: "length (CHR ''['' # ?t @ CHR '']'' # CHR ''('' # ?u @ [CHR '')'']) = n"
    using v(3) by simp
  have "drop n s = r3" by (subst e) (metis l append_eq_conv_conj)
  moreover have "isOccurrence s t u r3" using e nt nu v by (simp add: isOccurrence_def)
  ultimately show ?thesis using v by blast
qed

lemma occurrence_matchLink:
  "isOccurrence s t u rest \<Longrightarrow> matchLink s = Some (t, u, length t + length u + 4)"
  using matchLink_occurrence [of t u rest] by (simp add: isOccurrence_def)

lemma matchLink_None_iff: "(matchLink s = None) = (\<forall>t u rest. \<not> isOccurrence s t u rest)"
proof
  assume "matchLink s = None"
  then show "\<forall>t u rest. \<not> isOccurrence s t u rest" using occurrence_matchLink by fastforce
next
  assume a: "\<forall>t u rest. \<not> isOccurrence s t u rest"
  show "matchLink s = None"
  proof (rule ccontr)
    assume "matchLink s \<noteq> None"
    then obtain t u n where "matchLink s = Some (t, u, n)" by (cases "matchLink s") auto
    then show False using matchLink_Some_occurrence a by blast
  qed
qed

lemma execAll_skip_context:
  assumes "\<And>p x. x \<noteq> [] \<Longrightarrow> suffix x pre \<Longrightarrow> m p (x @ s) = None" and "pre \<noteq> []"
  shows "execAll m p (pre @ s) = execAll m (Some (last pre)) s"
  using assms
proof (induction pre arbitrary: p)
  case Nil
  then show ?case by simp
next
  case (Cons a pre)
  have h: "m p ((a # pre) @ s) = None" using Cons.prems(1) [of "a # pre" p] by simp
  show ?case
  proof (cases "pre = []")
    case True
    then show ?thesis using h by simp
  next
    case False
    have "execAll m (Some a) (pre @ s) = execAll m (Some (last pre)) s"
      using Cons.prems(1) False by (intro Cons.IH) (auto simp: suffix_Cons)
    then show ?thesis using h False by simp
  qed
qed

text \<open>
  C1 (as amended). extractLinks always returns, and it returns exactly the occurrences
  \<^verbatim>\<open>[t](u)\<close> of its pattern, from left to right and without overlap, an image's
  among them. A text in which no occurrence begins at any position has no link. In a
  text whose leftmost occurrence is \<^verbatim>\<open>[t](u)\<close>, that occurrence is the first link
  returned, whatever stands before it, an exclamation mark or a bracket that opens no
  link included, and the links of the text behind the occurrence follow in order.
\<close>

theorem extractLinks_occurrences:
  "(\<exists>ls. extractLinks s = Some ls)
   \<and> ((\<forall>x t u r. suffix x s \<longrightarrow> \<not> isOccurrence x t u r) \<longrightarrow> extractLinks s = Some [])
   \<and> ((\<forall>x t' u' r. x \<noteq> [] \<and> suffix x pre \<longrightarrow> \<not> isOccurrence (x @ occ) t' u' r)
        \<and> isOccurrence occ t u rest \<longrightarrow>
        extractLinks (pre @ occ) = map_option ((#) \<lparr>text_link = t, url = u\<rparr>) (extractLinks rest))"
proof (intro conjI impI)
  show "\<exists>ls. extractLinks s = Some ls" by (rule extractLinks_total)
next
  assume a: "\<forall>x t u r. suffix x s \<longrightarrow> \<not> isOccurrence x t u r"
  have n: "linkMatcher p x = None" if "suffix x s" for p x
  proof -
    have "matchLink x = None" using that a matchLink_None_iff [of x] by blast
    then show ?thesis by (simp add: linkMatcher_def)
  qed
  show "extractLinks s = Some []"
  proof (cases "s = []")
    case True
    then show ?thesis using n [of "[]"] by (simp add: extractLinks_def)
  next
    case False
    have "execAll linkMatcher None (s @ []) = execAll linkMatcher (Some (last s)) []"
      using False n by (intro execAll_skip_context) (auto simp: suffix_def)
    then show ?thesis using n [of "[]"] by (simp add: extractLinks_def)
  qed
next
  assume a: "(\<forall>x t' u' r. x \<noteq> [] \<and> suffix x pre \<longrightarrow> \<not> isOccurrence (x @ occ) t' u' r)
        \<and> isOccurrence occ t u rest"
  let ?n = "length t + length u + 4"
  have ml: "matchLink occ = Some (t, u, ?n)" using a occurrence_matchLink by blast
  then have d: "drop ?n occ = rest" and pos: "0 < ?n"
    using matchLink_Some_occurrence [OF ml] a by (auto simp: isOccurrence_def)
  have m: "linkMatcher q occ = Some (?n, \<lparr>text_link = t, url = u\<rparr>)" for q
    using ml by (simp add: linkMatcher_def)
  obtain c cs where occ: "occ = c # cs" using a by (cases occ) (auto simp: isOccurrence_def)
  have at: "execAll linkMatcher q occ
        = map_option ((#) \<lparr>text_link = t, url = u\<rparr>) (execAll linkMatcher None rest)" for q
  proof -
    have "execAll linkMatcher q (c # cs)
        = map_option ((#) \<lparr>text_link = t, url = u\<rparr>)
            (execAll linkMatcher (Some (last (take ?n (c # cs)))) (drop ?n (c # cs)))"
      using m [of q] unfolding occ by (simp del: drop_Suc_Cons take_Suc_Cons)
    also have "execAll linkMatcher (Some (last (take ?n (c # cs)))) (drop ?n (c # cs))
               = execAll linkMatcher None (drop ?n (c # cs))"
      by (rule execAll_prev) (simp add: linkMatcher_def)
    finally show ?thesis using d unfolding occ by simp
  qed
  have "execAll linkMatcher None (pre @ occ)
        = map_option ((#) \<lparr>text_link = t, url = u\<rparr>) (execAll linkMatcher None rest)"
  proof (cases "pre = []")
    case True
    then show ?thesis using at by simp
  next
    case False
    have "execAll linkMatcher None (pre @ occ) = execAll linkMatcher (Some (last pre)) occ"
    proof (intro execAll_skip_context)
      fix p x assume "x \<noteq> []" "suffix x pre"
      then have "matchLink (x @ occ) = None" using a matchLink_None_iff [of "x @ occ"] by blast
      then show "linkMatcher p (x @ occ) = None" by (simp add: linkMatcher_def)
    qed (rule False)
    then show ?thesis using at by simp
  qed
  then show "extractLinks (pre @ occ)
          = map_option ((#) \<lparr>text_link = t, url = u\<rparr>) (extractLinks rest)"
    by (simp add: extractLinks_def)
qed

theorem extractLinks_occurrences_witness:
  "extractLinks ''[x] ![a](b) end'' = Some [\<lparr>text_link = ''a'', url = ''b''\<rparr>]"
proof -
  have 1: "matchLink (x @ ''[a](b) end'') = None" if "x \<noteq> []" "suffix x ''[x] !''" for x
    using that by (auto simp: suffix_Cons matchLink_def)
  have 2: "matchLink x = None" if "suffix x '' end''" for x
    using that by (auto simp: suffix_Cons matchLink_def)
  have h1: "\<forall>x t' u' r. x \<noteq> [] \<and> suffix x ''[x] !'' \<longrightarrow> \<not> isOccurrence (x @ ''[a](b) end'') t' u' r"
    using 1 matchLink_None_iff by blast
  have h2: "\<forall>x t u r. suffix x '' end'' \<longrightarrow> \<not> isOccurrence x t u r"
    using 2 matchLink_None_iff by blast
  have h3: "isOccurrence ''[a](b) end'' ''a'' ''b'' '' end''"
    by (simp add: isOccurrence_def)
  have "extractLinks (''[x] !'' @ ''[a](b) end'')
        = map_option ((#) \<lparr>text_link = ''a'', url = ''b''\<rparr>) (extractLinks '' end'')"
    using extractLinks_occurrences [of "'' end''" "''[x] !''" "''[a](b) end''" "''a''" "''b''" "'' end''"]
      h1 h3 by blast
  moreover have "extractLinks '' end'' = Some []"
    using extractLinks_occurrences [of "'' end''" "[]" "[]" "[]" "[]" "[]"] h2 by blast
  ultimately show ?thesis by simp
qed

text \<open>
  C1 as stated fails: the pattern has no look-behind, so the \<^verbatim>\<open>[alt](src)\<close> part of an
  image is returned as a link.
\<close>

theorem extractLinks_image_counterexample:
  "extractLinks ''![alt](src)'' = Some [\<lparr>text_link = ''alt'', url = ''src''\<rparr>]"
  by (simp add: extractLinks_def linkMatcher_def matchLink_def)

section \<open>filenameToSlug\<close>

lemma slugChar_notSpace: "slugChar c \<Longrightarrow> \<not> isSpace c"
  by (auto simp: slugChar_def isSpace_def isLower_def isDigit_def inRange_def)

lemma slugChar_lower: "slugChar c \<Longrightarrow> toLowerChar c = c"
  by (auto simp: slugChar_def toLowerChar_def isUpper_def isLower_def isDigit_def inRange_def)

lemma slugChar_plain: "slugChar c \<Longrightarrow> c \<noteq> CHR ''_'' \<and> c \<noteq> CHR ''.''"
  by (auto simp: slugChar_def isLower_def isDigit_def inRange_def)

lemma replaceAll_run_set:
  "set (replaceAll (runMatcher P rep) prev s) \<subseteq> {c \<in> set s. \<not> P c} \<union> set rep"
proof (induction "length s" arbitrary: s prev rule: less_induct)
  case less
  show ?case
  proof (cases s)
    case Nil
    then show ?thesis by (simp add: runMatcher_def)
  next
    case (Cons c cs)
    show ?thesis
    proof (cases "P c")
      case False
      then have "replaceAll (runMatcher P rep) prev s = c # replaceAll (runMatcher P rep) (Some c) cs"
        using Cons by (simp add: runMatcher_def)
      then show ?thesis using less [of cs "Some c"] Cons False by auto
    next
      case True
      let ?n = "length (takeWhile P s)"
      have n: "0 < ?n" using True Cons by simp
      have eq: "replaceAll (runMatcher P rep) prev s
                = rep @ replaceAll (runMatcher P rep) (Some (last (take ?n s))) (drop ?n s)"
        using True Cons by (simp add: runMatcher_def)
      have "length (drop ?n s) < length s" using n Cons by simp
      from less [OF this]
      have "set (replaceAll (runMatcher P rep) (Some (last (take ?n s))) (drop ?n s))
              \<subseteq> {c \<in> set (drop ?n s). \<not> P c} \<union> set rep" .
      moreover have "set (drop ?n s) \<subseteq> set s" by (rule set_drop_subset)
      ultimately show ?thesis unfolding eq by auto
    qed
  qed
qed

lemma replaceAll_run_hd:
  "s \<noteq> [] \<Longrightarrow> \<not> P (hd s) \<Longrightarrow> replaceAll (runMatcher P rep) prev s \<noteq> []
     \<and> hd (replaceAll (runMatcher P rep) prev s) = hd s"
  by (cases s) (auto simp: runMatcher_def)

lemma noDouble_Cons: "noDouble h (c # s) = ((s \<noteq> [] \<and> c = h \<longrightarrow> hd s \<noteq> h) \<and> noDouble h s)"
  by (cases s) auto

lemma replaceAll_run_noDouble:
  "noDouble h (replaceAll (runMatcher (\<lambda>c. c = h) [h]) prev s)"
proof (induction "length s" arbitrary: s prev rule: less_induct)
  case less
  let ?m = "runMatcher (\<lambda>c. c = h) [h]"
  show ?case
  proof (cases s)
    case Nil
    then show ?thesis by (simp add: runMatcher_def)
  next
    case (Cons c cs)
    show ?thesis
    proof (cases "c = h")
      case False
      then have "replaceAll ?m prev s = c # replaceAll ?m (Some c) cs"
        using Cons by (simp add: runMatcher_def)
      then show ?thesis using less [of cs "Some c"] Cons False by (simp add: noDouble_Cons)
    next
      case True
      let ?n = "length (takeWhile (\<lambda>c. c = h) s)"
      let ?r = "drop ?n s"
      have n: "0 < ?n" using True Cons by simp
      have eq: "replaceAll ?m prev s = h # replaceAll ?m (Some (last (take ?n s))) ?r"
        using True Cons by (simp add: runMatcher_def)
      have r: "?r = dropWhile (\<lambda>c. c = h) s" by (simp add: dropWhile_eq_drop)
      have "length ?r < length s" using n Cons by simp
      from less [OF this]
      have nd: "noDouble h (replaceAll ?m (Some (last (take ?n s))) ?r)" .
      have "?r \<noteq> [] \<Longrightarrow> hd ?r \<noteq> h"
        unfolding r using hd_dropWhile [of "\<lambda>c. c = h" s] by blast
      then have "replaceAll ?m (Some (last (take ?n s))) ?r \<noteq> [] \<Longrightarrow>
                 hd (replaceAll ?m (Some (last (take ?n s))) ?r) \<noteq> h"
        using replaceAll_run_hd [of ?r "\<lambda>c. c = h" "[h]"] by (cases "?r = []") (auto simp: runMatcher_def)
      then show ?thesis unfolding eq using nd by (simp add: noDouble_Cons)
    qed
  qed
qed

lemma replaceAll_run_id:
  "\<forall>c\<in>set s. \<not> P c \<Longrightarrow> replaceAll (runMatcher P rep) prev s = s"
  by (induction s arbitrary: prev) (auto simp: runMatcher_def)

lemma replaceAll_run_noDouble_id:
  "noDouble h s \<Longrightarrow> replaceAll (runMatcher (\<lambda>c. c = h) [h]) prev s = s"
proof (induction s arbitrary: prev)
  case Nil
  then show ?case by (simp add: runMatcher_def)
next
  case (Cons c cs)
  show ?case
  proof (cases "c = h")
    case False
    then show ?thesis using Cons by (simp add: runMatcher_def noDouble_Cons)
  next
    case True
    have "takeWhile (\<lambda>c. c = h) (c # cs) = [c]"
      using Cons.prems True by (cases cs) auto
    then show ?thesis using Cons True by (simp add: runMatcher_def noDouble_Cons)
  qed
qed

lemma trim_id: "\<forall>c\<in>set s. \<not> isSpace c \<Longrightarrow> trim s = s"
proof -
  assume a: "\<forall>c\<in>set s. \<not> isSpace c"
  have "dropWhile isSpace s = s" using a by (cases s) auto
  moreover have "dropWhile isSpace (rev s) = rev s" using a by (cases "rev s") (auto simp: in_set_conv_decomp dest!: arg_cong [where f = set])
  ultimately show ?thesis by (simp add: trim_def trimStart_def trimEnd_def)
qed


lemma removeExtension_id: "CHR ''.'' \<notin> set s \<Longrightarrow> removeExtension s = s"
  by (induction s) auto

lemma removeExtension_split:
  "\<exists>e. s = removeExtension s @ e
       \<and> (e = [] \<or> (\<exists>t. e = CHR ''.'' # t \<and> t \<noteq> [] \<and> list_all (\<lambda>d. d \<noteq> CHR ''/'' \<and> d \<noteq> CHR ''.'') t))"
  by (induction s) auto

lemma extension_shape:
  "extension s = [] \<or> (\<exists>t. extension s = CHR ''.'' # t \<and> t \<noteq> []
                          \<and> list_all (\<lambda>d. d \<noteq> CHR ''/'' \<and> d \<noteq> CHR ''.'') t)"
proof -
  obtain e where e: "s = removeExtension s @ e"
    and sh: "e = [] \<or> (\<exists>t. e = CHR ''.'' # t \<and> t \<noteq> [] \<and> list_all (\<lambda>d. d \<noteq> CHR ''/'' \<and> d \<noteq> CHR ''.'') t)"
    using removeExtension_split by blast
  have "extension s = e" unfolding extension_def by (subst (2) e) simp
  then show ?thesis using sh by simp
qed

lemma removeExtension_append:
  "CHR ''.'' \<notin> set g \<Longrightarrow> t \<noteq> [] \<Longrightarrow> list_all (\<lambda>d. d \<noteq> CHR ''/'' \<and> d \<noteq> CHR ''.'') t
     \<Longrightarrow> removeExtension (g @ CHR ''.'' # t) = g"
  by (induction g) auto

lemma removeExtension_reappend:
  "CHR ''.'' \<notin> set g \<Longrightarrow> removeExtension (g @ extension s) = g"
  using extension_shape [of s] by (auto simp: removeExtension_id removeExtension_append)

lemma filenameToSlug_slugTail: "filenameToSlug f = slugTail (removeExtension f)"
  by (simp add: filenameToSlug_def slugTail_def)

lemma slugTail_shape:
  "(\<forall>c\<in>set (slugTail stem). slugChar c) \<and> noDouble (CHR ''-'') (slugTail stem)"
proof -
  let ?a = "filter (\<lambda>c. isLower c \<or> isDigit c \<or> isSpace c \<or> c = CHR ''-'')
             (map (\<lambda>c. if c = CHR ''_'' then CHR ''-'' else c) (toLowerCase stem))"
  let ?b = "replaceAll (runMatcher isSpace ''-'') None ?a"
  let ?c = "replaceAll (runMatcher (\<lambda>c. c = CHR ''-'') ''-'') None ?b"
  have a: "\<forall>c\<in>set ?a. slugChar c \<or> isSpace c" by (auto simp: slugChar_def)
  have "set ?b \<subseteq> {c \<in> set ?a. \<not> isSpace c} \<union> set ''-''" by (rule replaceAll_run_set)
  then have b: "\<forall>c\<in>set ?b. slugChar c" using a by (auto simp: slugChar_def)
  have "set ?c \<subseteq> {c \<in> set ?b. \<not> c = CHR ''-''} \<union> set ''-''" by (rule replaceAll_run_set)
  then have c: "\<forall>c\<in>set ?c. slugChar c" using b by (auto simp: slugChar_def)
  have nd: "noDouble (CHR ''-'') ?c" by (rule replaceAll_run_noDouble)
  have "trim ?c = ?c" using c by (intro trim_id) (auto dest: slugChar_notSpace)
  then have "slugTail stem = ?c" by (simp add: slugTail_def)
  then show ?thesis using c nd by simp
qed

lemma slugTail_id:
  assumes ch: "\<forall>c\<in>set g. slugChar c" and nd: "noDouble (CHR ''-'') g"
  shows "slugTail g = g"
proof -
  have 1: "toLowerCase g = g" using ch by (simp add: toLowerCase_def slugChar_lower map_idI)
  have 2: "map (\<lambda>c. if c = CHR ''_'' then CHR ''-'' else c) g = g"
    using ch by (intro map_idI) (auto dest: slugChar_plain)
  have 3: "filter (\<lambda>c. isLower c \<or> isDigit c \<or> isSpace c \<or> c = CHR ''-'') g = g"
    using ch by (auto simp: slugChar_def filter_id_conv)
  have 4: "replaceAll (runMatcher isSpace ''-'') None g = g"
    using ch by (intro replaceAll_run_id) (auto dest: slugChar_notSpace)
  have 5: "replaceAll (runMatcher (\<lambda>c. c = CHR ''-'') ''-'') None g = g"
    using nd by (rule replaceAll_run_noDouble_id)
  have 6: "trim g = g" using ch by (intro trim_id) (auto dest: slugChar_notSpace)
  show ?thesis by (simp add: slugTail_def 1 2 3 4 5 6)
qed

text \<open>
  C4. filenameToSlug is idempotent: applied to its own result it returns that result,
  and it does so too when the extension it removed from the file name is appended to
  the result first.
\<close>

theorem filenameToSlug_idempotent:
  "filenameToSlug (filenameToSlug f) = filenameToSlug f
   \<and> filenameToSlug (filenameToSlug f @ extension f) = filenameToSlug f"
proof -
  let ?g = "filenameToSlug f"
  have sh: "(\<forall>c\<in>set ?g. slugChar c) \<and> noDouble (CHR ''-'') ?g"
    unfolding filenameToSlug_slugTail by (rule slugTail_shape)
  then have dot: "CHR ''.'' \<notin> set ?g" using slugChar_plain by blast
  have id: "slugTail ?g = ?g" using sh by (intro slugTail_id) auto
  have "filenameToSlug ?g = slugTail ?g"
    unfolding filenameToSlug_slugTail [of ?g] using dot by (simp add: removeExtension_id)
  moreover have "filenameToSlug (?g @ extension f) = slugTail ?g"
    unfolding filenameToSlug_slugTail [of "?g @ extension f"]
    using dot by (simp add: removeExtension_reappend)
  ultimately show ?thesis using id by simp
qed



theorem filenameToSlug_idempotent_witness:
  "filenameToSlug (filenameToSlug ''My Great Article!.md'') = ''my-great-article''
   \<and> filenameToSlug (filenameToSlug ''My Great Article!.md'' @ extension ''My Great Article!.md'')
       = ''my-great-article''"
proof -
  have a: "filenameToSlug ''My Great Article!.md'' = ''my-great-article''" by code_simp
  show ?thesis using filenameToSlug_idempotent [of "''My Great Article!.md''"] unfolding a by simp
qed

section \<open>getRelativePath\<close>

text \<open>Where neither branch finds the base, the result is the normalized path.\<close>

lemma getRelativePath_fallback:
  "\<not> prefix (normalizePath base) (normalizePath path)
     \<Longrightarrow> stripToBase (normalizePath base @ ''/'') (normalizePath path) = None
     \<Longrightarrow> getRelativePath path base = normalizePath path"
  by (simp add: getRelativePath_def)

text \<open>
  C7. The path \<^verbatim>\<open>a\b\<close> neither starts with the base \<^verbatim>\<open>zzz\<close> nor contains it, and
  getRelativePath returns \<^verbatim>\<open>a/b\<close>: the fallback is the path with its separators
  normalized, not the path as it was given.
\<close>

theorem getRelativePath_fallback_normalized:
  "getRelativePath [CHR ''a'', backslash, CHR ''b''] ''zzz'' = ''a/b''
   \<and> \<not> prefix (normalizePath ''zzz'') (normalizePath [CHR ''a'', backslash, CHR ''b''])
   \<and> stripToBase (normalizePath ''zzz'' @ ''/'') (normalizePath [CHR ''a'', backslash, CHR ''b'']) = None"
  by code_simp

section \<open>getAllHeadings\<close>

lemma headingMatcher_hd: "t \<noteq> [] \<Longrightarrow> hd t \<noteq> CHR ''#'' \<Longrightarrow> headingMatcher p t = None"
  by (cases t) (auto simp: headingMatcher_def Let_def)

lemma headingMatcher_Nil: "headingMatcher p [] = None"
  by (simp add: headingMatcher_def)

lemma headingMatcher_bare:
  assumes "atLineStart p" "1 \<le> n" "n \<le> 6" "ws \<noteq> []" "\<forall>c\<in>set ws. isSpace c"
  shows "headingMatcher p (replicate n (CHR ''#'') @ ws)
         = Some (n + length ws, replicate n (CHR ''#''), [])"
proof -
  have "hd ws \<noteq> CHR ''#''" using assms(4,5) by (cases ws) (auto simp: isSpace_def)
  then have "takeWhile (\<lambda>c. c = CHR ''#'') ws = []"
    using assms(4) by (cases ws) auto
  then have h: "takeWhile (\<lambda>c. c = CHR ''#'') (replicate n (CHR ''#'') @ ws) = replicate n (CHR ''#'')"
    by (subst takeWhile_append2) auto
  have w: "takeWhile isSpace ws = ws" using assms(5) by simp
  show ?thesis using assms(1-4) by (simp add: headingMatcher_def h w)
qed

lemma isLT_isSpace: "isLT c \<Longrightarrow> isSpace c"
  by (auto simp: isLT_def isSpace_def)

lemma dropWhile_last: "dropWhile P xs \<noteq> [] \<Longrightarrow> last (dropWhile P xs) = last xs"
  by (induction xs) (auto split: if_splits)

lemma takeWhile_short: "length (takeWhile P xs) < length xs \<Longrightarrow> \<exists>x\<in>set xs. \<not> P x"
  by (metis less_irrefl takeWhile_eq_all_conv)

lemma bareTail_append:
  assumes "pfx \<noteq> []" "bareTail (Some (last pfx)) z"
  shows "bareTail p (pfx @ z)"
proof -
  let ?H = "\<lambda>c. c = CHR ''#''"
  let ?k = "length (takeWhile ?H (rev z))"
  let ?b = "take (length z - ?k) z"
  have k: "1 \<le> ?k" "?k \<le> 6" and b: "if ?b = [] then atLineStart (Some (last pfx)) else isLT (last ?b)"
    using assms(2) by (auto simp: bareTail_def Let_def)
  have kz: "?k \<le> length z" using length_takeWhile_le [of ?H "rev z"] by simp
  have same: "takeWhile ?H (rev (pfx @ z)) = takeWhile ?H (rev z)"
  proof (cases "?k < length z")
    case True
    then obtain x where "x \<in> set (rev z)" "\<not> ?H x" using takeWhile_short [of ?H "rev z"] by auto
    then show ?thesis by (simp add: takeWhile_append1)
  next
    case False
    then have kk: "?k = length z" using kz by simp
    then have "?b = []" by simp
    then have "isLT (last pfx)" using b by (simp add: atLineStart_def)
    then have "\<not> ?H (hd (rev pfx))" using assms(1) by (auto simp: hd_rev isLT_def)
    then have e: "takeWhile ?H (rev pfx) = []" using assms(1) by (cases "rev pfx") auto
    have tz: "takeWhile ?H (rev z) = rev z"
      using kk by (metis length_rev takeWhile_eq_take take_all_iff order_refl)
    then have "\<forall>x\<in>set (rev z). ?H x" by (simp add: takeWhile_eq_all_conv)
    then have "takeWhile ?H (rev z @ rev pfx) = rev z @ takeWhile ?H (rev pfx)"
      by (intro takeWhile_append2) auto
    then have "takeWhile ?H (rev z @ rev pfx) = rev z" using e by simp
    then show ?thesis by (simp only: rev_append tz)
  qed
  have tk: "take (length (pfx @ z) - ?k) (pfx @ z) = pfx @ ?b" using kz by simp
  have "pfx @ ?b \<noteq> [] \<and> isLT (last (pfx @ ?b))"
  proof (cases "?b = []")
    case True
    then show ?thesis using b assms(1) by (simp add: atLineStart_def)
  next
    case False
    then show ?thesis using b by simp
  qed
  then have "if pfx @ ?b = [] then atLineStart p else isLT (last (pfx @ ?b))"
    by auto
  then show ?thesis using k unfolding bareTail_def Let_def same tk by blast
qed

lemma bareTail_replicate:
  assumes "1 \<le> k" "k \<le> 6" "atLineStart p"
  shows "bareTail p (replicate k (CHR ''#''))"
  using assms by (simp add: bareTail_def Let_def)

lemma passable_last: "passable p u \<Longrightarrow> u \<noteq> [] \<and> isLT (last u)"
  by (auto simp: passable_def)

lemma bareTail_Nil: "\<not> bareTail p []"
  by (simp add: bareTail_def)

lemma passable_suffix:
  assumes "passable p u" "u = pfx @ u'" "pfx \<noteq> []" "u' \<noteq> []"
  shows "passable (Some (last pfx)) u'"
proof -
  obtain q w where qw: "u = q @ w" "q = [] \<or> \<not> isSpace (last q)" "\<not> bareTail p q"
      "w \<noteq> []" "\<forall>x\<in>set w. isSpace x" "isLT (last w)"
    using assms(1) by (auto simp: passable_def)
  have white: "passable (Some (last pfx)) u'" if "suffix u' w"
  proof -
    have "\<forall>x\<in>set u'. isSpace x" using that qw(5) by (auto simp: suffix_def)
    moreover have "isLT (last u')" using that qw(6) assms(4) by (auto simp: suffix_def)
    ultimately have "u' = [] @ u' \<and> ([] = [] \<or> \<not> isSpace (last [])) \<and> \<not> bareTail (Some (last pfx)) []
        \<and> u' \<noteq> [] \<and> (\<forall>x\<in>set u'. isSpace x) \<and> isLT (last u')"
      using assms(4) bareTail_Nil by simp
    then show ?thesis unfolding passable_def by blast
  qed
  from assms(2) qw(1) have "pfx @ u' = q @ w" by simp
  then obtain z where "(pfx = q @ z \<and> w = z @ u') \<or> (pfx @ z = q \<and> u' = z @ w)"
    by (auto simp: append_eq_append_conv2)
  then show ?thesis
  proof
    assume "pfx = q @ z \<and> w = z @ u'"
    then have "suffix u' w" by (auto simp: suffix_def)
    then show ?thesis by (rule white)
  next
    assume z: "pfx @ z = q \<and> u' = z @ w"
    show ?thesis
    proof (cases "z = []")
      case True
      then show ?thesis using z white by (simp add: suffix_def)
    next
      case False
      have "\<not> isSpace (last z)" using z False qw(2) by auto
      moreover have "\<not> bareTail (Some (last pfx)) z"
        using bareTail_append [OF assms(3), of z p] z qw(3) by auto
      ultimately show ?thesis unfolding passable_def using z qw(4,5,6) by blast
    qed
  qed
qed

lemma headingMatcher_alt:
  "headingMatcher prev s =
     (if \<not> atLineStart prev then None
      else
        let hashes = takeWhile (\<lambda>c. c = CHR ''#'') s;
            r = dropWhile (\<lambda>c. c = CHR ''#'') s;
            ws = takeWhile isSpace r;
            body = takeWhile (\<lambda>c. \<not> isLT c) (dropWhile isSpace r)
        in if 1 \<le> length hashes \<and> length hashes \<le> 6 \<and> ws \<noteq> []
           then Some (length hashes + length ws + length body, hashes, body)
           else None)"
  by (simp add: headingMatcher_def dropWhile_eq_drop Let_def)

lemma headingMatcher_local:
  assumes "passable p u" and m: "headingMatcher p (u @ rest) = Some (n, g)"
  shows "0 < n \<and> n < length u"
proof -
  obtain q w where qw: "u = q @ w" "q = [] \<or> \<not> isSpace (last q)" "\<not> bareTail p q"
      "w \<noteq> []" "\<forall>x\<in>set w. isSpace x" "isLT (last w)"
    using assms(1) by (auto simp: passable_def)
  let ?H = "\<lambda>c. c = CHR ''#''"
  let ?L = "\<lambda>c. \<not> isLT c"
  have ls: "atLineStart p" and hd: "takeWhile ?H (u @ rest) \<noteq> []"
    and six: "length (takeWhile ?H (u @ rest)) \<le> 6"
    using m by (auto simp: headingMatcher_def Let_def split: if_splits)
  obtain w0 w' where w: "w = w0 # w'" "isSpace w0" using qw(4,5) by (cases w) auto
  then have w0: "\<not> ?H w0" by (auto simp: isSpace_def)
  have q: "q \<noteq> []"
  proof
    assume "q = []"
    then have "takeWhile ?H (u @ rest) = []" using qw(1) w w0 by simp
    then show False using hd by simp
  qed
  then have c: "\<not> isSpace (last q)" using qw(2) by auto
  have lq: "last q \<in> set q" using q by simp
  obtain x where x: "x \<in> set q" "\<not> ?H x"
  proof (cases "\<forall>x\<in>set q. ?H x")
    case False
    then show ?thesis using that by blast
  next
    case True
    then have r: "q = replicate (length q) (CHR ''#'')" by (simp add: replicate_length_same)
    have "takeWhile ?H (u @ rest) = q @ takeWhile ?H (w @ rest)"
      unfolding qw(1) using True by (simp add: takeWhile_append2)
    then have "takeWhile ?H (u @ rest) = q" using w w0 by simp
    then have "1 \<le> length q \<and> length q \<le> 6" using six q by (cases q) auto
    then have "bareTail p q" using bareTail_replicate [of "length q" p] ls r by simp
    then show ?thesis using qw(3) by simp
  qed
  define q1 where "q1 = dropWhile ?H q"
  define q2 where "q2 = dropWhile isSpace q1"
  have q1: "q1 \<noteq> []" "last q1 = last q"
    unfolding q1_def using x dropWhile_last [of ?H q] by (auto simp: dropWhile_eq_Nil_conv)
  have lq1: "last q1 \<in> set q1" using q1(1) by (rule last_in_set)
  have q2: "q2 \<noteq> []"
    unfolding q2_def using lq1 c q1(2) by (auto simp: dropWhile_eq_Nil_conv)
  have H: "takeWhile ?H (u @ rest) = takeWhile ?H q"
    unfolding qw(1) using x by (simp add: takeWhile_append1)
  have r: "dropWhile ?H (u @ rest) = q1 @ w @ rest"
    unfolding qw(1) q1_def using x by (simp add: dropWhile_append1)
  have W: "takeWhile isSpace (q1 @ w @ rest) = takeWhile isSpace q1"
    using lq1 c q1(2) by (simp add: takeWhile_append1)
  have r': "dropWhile isSpace (q1 @ w @ rest) = q2 @ w @ rest"
    unfolding q2_def using lq1 c q1(2) by (simp add: dropWhile_append1)
  have lw: "last w \<in> set (q2 @ w)" using qw(4) by simp
  have B: "takeWhile ?L (q2 @ w @ rest) = takeWhile ?L (q2 @ w)"
    using takeWhile_append1 [OF lw, of ?L rest] qw(6) by simp
  have n: "n = length (takeWhile ?H q) + length (takeWhile isSpace q1) + length (takeWhile ?L (q2 @ w))"
    using m by (auto simp: headingMatcher_alt Let_def H r W r' B split: if_splits)
  have pos: "0 < n" using hd H n by simp
  have u: "u = takeWhile ?H q @ takeWhile isSpace q1 @ q2 @ w"
    unfolding qw(1) q2_def q1_def by simp
  have d: "drop n u = dropWhile ?L (q2 @ w)"
  proof -
    have "drop n u = drop (length (takeWhile ?L (q2 @ w))) (q2 @ w)"
      by (subst u) (simp add: n)
    then show ?thesis by (simp add: dropWhile_eq_drop)
  qed
  have ne: "dropWhile ?L (q2 @ w) \<noteq> []"
    using lw qw(6) by (auto simp: dropWhile_eq_Nil_conv)
  have less: "n < length u"
  proof (rule ccontr)
    assume "\<not> n < length u"
    then have "drop n u = []" by simp
    then show False using d ne by simp
  qed
  show ?thesis using pos less by simp
qed

lemma map_option_append_Nil: "map_option ((@) []) z = z"
  by (cases z) auto

lemma map_option_Cons_append: "map_option ((#) g) (map_option ((@) ms) z) = map_option ((@) (g # ms)) z"
  by (cases z) auto

lemma execAll_heading_through:
  "passable p u \<Longrightarrow>
     \<exists>ms. execAll headingMatcher p (u @ rest)
           = map_option ((@) ms) (execAll headingMatcher (Some (last u)) rest)"
proof (induction "length u" arbitrary: u p rule: less_induct)
  case less
  then obtain x u' where u: "u = x # u'" using passable_last by (cases u) auto
  show ?case
  proof (cases "headingMatcher p (u @ rest)")
    case None
    then have step: "execAll headingMatcher p (u @ rest) = execAll headingMatcher (Some x) (u' @ rest)"
      using u by simp
    show ?thesis
    proof (cases "u' = []")
      case True
      then show ?thesis using step u by (metis append_Nil last.simps map_option_append_Nil)
    next
      case False
      then have "passable (Some (last [x])) u'"
        using less.prems u by (intro passable_suffix [of p u "[x]" u']) auto
      then have "passable (Some x) u'" by simp
      moreover have "length u' < length u" using u by simp
      ultimately obtain ms where "execAll headingMatcher (Some x) (u' @ rest)
           = map_option ((@) ms) (execAll headingMatcher (Some (last u')) rest)"
        using less.hyps by blast
      then show ?thesis using step u False by auto
    qed
  next
    case (Some a)
    obtain n g where a: "a = (n, g)" by (cases a)
    have loc: "0 < n" "n < length u"
      using headingMatcher_local [OF less.prems] Some a by auto
    have tk: "take n (u @ rest) = take n u" using loc(2) by simp
    have pass: "passable (Some (last (take n u))) (drop n u)"
      using less.prems loc by (intro passable_suffix [of p u "take n u" "drop n u"]) auto
    have dr: "drop n (u @ rest) = drop n u @ rest" using loc(2) by simp
    have e1: "execAll headingMatcher p (u @ rest)
          = map_option ((#) g) (execAll headingMatcher (Some (last (take n (u @ rest)))) (drop n (u @ rest)))"
      using Some a loc(1) u by (simp del: take_Suc_Cons drop_Suc_Cons take_append drop_append)
    have "length (drop n u) < length u" using loc(1) u by simp
    then obtain ms where e2: "execAll headingMatcher (Some (last (take n u))) (drop n u @ rest)
           = map_option ((@) ms) (execAll headingMatcher (Some (last (drop n u))) rest)"
      using less.hyps pass by blast
    have e3: "last (drop n u) = last u" using loc(2) by simp
    have "execAll headingMatcher p (u @ rest)
          = map_option ((@) (g # ms)) (execAll headingMatcher (Some (last u)) rest)"
      unfolding e1 tk dr e2 e3 by (rule map_option_Cons_append)
    then show ?thesis by blast
  qed
qed

lemma execAll_heading_bare:
  assumes "atLineStart p" "1 \<le> n" "n \<le> 6" "ws \<noteq> []" "\<forall>c\<in>set ws. isSpace c"
  shows "execAll headingMatcher p (replicate n (CHR ''#'') @ ws) = Some [(replicate n (CHR ''#''), [])]"
proof -
  let ?line = "replicate n (CHR ''#'') @ ws"
  have m: "headingMatcher p ?line = Some (n + length ws, replicate n (CHR ''#''), [])"
    using assms by (intro headingMatcher_bare) auto
  obtain c cs where l: "?line = c # cs" using assms(4) by (cases ?line) auto
  have len: "length (c # cs) = n + length ws" unfolding l [symmetric] by simp
  have "execAll headingMatcher p (c # cs)
        = map_option ((#) (replicate n (CHR ''#''), []))
            (execAll headingMatcher (Some (last (take (n + length ws) (c # cs))))
               (drop (n + length ws) (c # cs)))"
    using m assms(2) unfolding l by (simp del: take_Suc_Cons drop_Suc_Cons)
  also have "drop (n + length ws) (c # cs) = []" using len by simp
  finally show ?thesis unfolding l by (simp add: headingMatcher_Nil)
qed

lemma headingOf_bare:
  "int n \<le> maxLevel \<Longrightarrow>
     headingOf maxLevel (replicate n (CHR ''#''), []) = [\<lparr>level = n, text_heading = [], anchor = []\<rparr>]"
  by (simp add: headingOf_def trim_def trimStart_def trimEnd_def anchorOf_def toLowerCase_def
      runMatcher_def)

lemma trimEnd_split:
  "\<exists>w. s = trimEnd s @ w \<and> (\<forall>c\<in>set w. isSpace c)
       \<and> (trimEnd s = [] \<or> \<not> isSpace (last (trimEnd s)))"
proof -
  let ?w = "rev (takeWhile isSpace (rev s))"
  have "rev (dropWhile isSpace (rev s)) @ ?w = s"
    by (metis rev_append rev_rev_ident takeWhile_dropWhile_id)
  then have 1: "s = trimEnd s @ ?w" by (simp add: trimEnd_def)
  have 2: "\<forall>c\<in>set ?w. isSpace c" by (auto dest: set_takeWhileD)
  have 3: "trimEnd s = [] \<or> \<not> isSpace (last (trimEnd s))"
  proof (cases "dropWhile isSpace (rev s) = []")
    case True
    then show ?thesis by (simp add: trimEnd_def)
  next
    case False
    then have "\<not> isSpace (hd (dropWhile isSpace (rev s)))" by (rule hd_dropWhile)
    then show ?thesis using False by (simp add: trimEnd_def last_rev)
  qed
  show ?thesis using 1 2 3 by blast
qed

text \<open>
  C10 (as amended). Take a text that ends in a line of one to six \<^verbatim>\<open>#\<close> followed by
  white space, at least one code unit of it, up to the end of the text. The text before
  the line is empty or ends in a line terminator, and the last line of it that is not
  blank is not itself a bare marker, that is, one to six \<^verbatim>\<open>#\<close> and nothing else. With
  the level within maxLevel, getAllHeadings returns, as its last heading, one of that
  level whose text and anchor are empty; it is the only heading when no \<^verbatim>\<open>#\<close> stands
  before the line.
\<close>

theorem getAllHeadings_bare_marker:
  assumes "pre = [] \<or> isLT (last pre)"
    and "\<not> bareTail None (trimEnd pre)"
    and "1 \<le> n" and "n \<le> 6" and "int n \<le> maxLevel"
    and "ws \<noteq> []" and "\<forall>c\<in>set ws. isSpace c"
  shows "(\<exists>hs. getAllHeadings (pre @ replicate n (CHR ''#'') @ ws) maxLevel
                = Some (hs @ [\<lparr>level = n, text_heading = [], anchor = []\<rparr>]))
         \<and> (CHR ''#'' \<notin> set pre \<longrightarrow>
              getAllHeadings (pre @ replicate n (CHR ''#'') @ ws) maxLevel
                = Some [\<lparr>level = n, text_heading = [], anchor = []\<rparr>])"
proof (cases "pre = []")
  case True
  have "execAll headingMatcher None (replicate n (CHR ''#'') @ ws) = Some [(replicate n (CHR ''#''), [])]"
    using assms by (intro execAll_heading_bare) (auto simp: atLineStart_def)
  then have "getAllHeadings (pre @ replicate n (CHR ''#'') @ ws) maxLevel
             = Some [\<lparr>level = n, text_heading = [], anchor = []\<rparr>]"
    using True assms(5) by (simp add: getAllHeadings_def headingOf_bare)
  then show ?thesis by simp
next
  case False
  let ?line = "replicate n (CHR ''#'') @ ws"
  let ?rec = "\<lparr>level = n, text_heading = [], anchor = []\<rparr>"
  have lt: "isLT (last pre)" using False assms(1) by simp
  obtain w where w: "pre = trimEnd pre @ w" "\<forall>c\<in>set w. isSpace c"
      "trimEnd pre = [] \<or> \<not> isSpace (last (trimEnd pre))"
    using trimEnd_split by blast
  have wn: "w \<noteq> []"
  proof
    assume "w = []"
    then have "pre = trimEnd pre" using w(1) by simp
    then show False using w(3) False lt isLT_isSpace by metis
  qed
  then have "isLT (last w)" using lt w(1) by (metis last_appendR)
  then have pass: "passable None pre" unfolding passable_def using w wn assms(2) by blast
  have bare: "execAll headingMatcher (Some (last pre)) ?line = Some [(replicate n (CHR ''#''), [])]"
    using assms lt by (intro execAll_heading_bare) (auto simp: atLineStart_def)
  obtain ms where "execAll headingMatcher None (pre @ ?line)
        = map_option ((@) ms) (execAll headingMatcher (Some (last pre)) ?line)"
    using execAll_heading_through [OF pass] by blast
  then have "execAll headingMatcher None (pre @ ?line) = Some (ms @ [(replicate n (CHR ''#''), [])])"
    using bare by simp
  then have 1: "getAllHeadings (pre @ ?line) maxLevel
        = Some (concat (map (headingOf maxLevel) ms) @ [?rec])"
    using assms(5) by (simp add: getAllHeadings_def headingOf_bare)
  have 2: "getAllHeadings (pre @ ?line) maxLevel = Some [?rec]" if "CHR ''#'' \<notin> set pre"
  proof -
    have "execAll headingMatcher None (pre @ ?line) = execAll headingMatcher (Some (last pre)) ?line"
      using that False by (intro execAll_skip headingMatcher_hd) auto
    then show ?thesis using bare assms(5) by (simp add: getAllHeadings_def headingOf_bare)
  qed
  show ?thesis using 1 2 by blast
qed

theorem getAllHeadings_bare_marker_witness:
  "getAllHeadings (''# A'' @ [nl, nl] @ ''Use C#'' @ [nl] @ ''## '' @ [nl]) 6
     = Some [\<lparr>level = 1, text_heading = ''A'', anchor = ''a''\<rparr>,
             \<lparr>level = 2, text_heading = [], anchor = []\<rparr>]"
proof -
  have a: "getAllHeadings (''# A'' @ [nl, nl] @ ''Use C#'' @ [nl] @ ''## '' @ [nl]) 6
     = Some [\<lparr>level = 1, text_heading = ''A'', anchor = ''a''\<rparr>,
             \<lparr>level = 2, text_heading = [], anchor = []\<rparr>]" by code_simp
  have b: "\<not> bareTail None (trimEnd (''# A'' @ [nl, nl] @ ''Use C#'' @ [nl]))" by code_simp
  have "\<exists>hs. getAllHeadings ((''# A'' @ [nl, nl] @ ''Use C#'' @ [nl]) @ replicate 2 (CHR ''#'') @ ('' '' @ [nl])) 6
                = Some (hs @ [\<lparr>level = 2, text_heading = [], anchor = []\<rparr>])"
    using getAllHeadings_bare_marker [of "''# A'' @ [nl, nl] @ ''Use C#'' @ [nl]" 2 6 "'' '' @ [nl]"] b
    by (simp add: isSpace_def isLT_def)
  then show ?thesis using a by simp
qed

text \<open>
  C10 as stated fails: the white space behind the \<^verbatim>\<open>#\<close> is matched by \<^verbatim>\<open>\s+\<close>, which
  runs over the line break, and the heading takes the text of the next line.
\<close>

theorem getAllHeadings_bare_marker_counterexample:
  "getAllHeadings (''# '' @ [nl] @ ''foo'') 6
     = Some [\<lparr>level = 1, text_heading = ''foo'', anchor = ''foo''\<rparr>]"
  by code_simp

section \<open>stripMarkdown\<close>

lemma replaceAll_quiet:
  assumes "\<And>p t. set t \<subseteq> set s \<Longrightarrow> m p t = None"
  shows "replaceAll m prev s = s"
  using assms
proof (induction s arbitrary: prev)
  case Nil
  then show ?case by simp
next
  case (Cons c cs)
  have "m prev (c # cs) = None" using Cons.prems by simp
  moreover have "replaceAll m (Some c) cs = cs"
    using Cons.prems by (intro Cons.IH) auto
  ultimately show ?case by simp
qed


lemma delimited_quiet: "lit \<noteq> [] \<Longrightarrow> hd lit \<notin> set t \<Longrightarrow> delimited lit stop closing t = None"
  by (cases lit; cases t) (auto simp: delimited_def)




lemma inlineCodeMatcher_quiet: "CHR ''`'' \<notin> set t \<Longrightarrow> inlineCodeMatcher p t = None"
  by (simp add: inlineCodeMatcher_def keepGroup_def delimited_quiet)
















lemma isSpace_nl: "isSpace nl"
  by (simp add: isSpace_def)







lemma trimEnd_prefix: "\<exists>w. s = trimEnd s @ w"
proof -
  have "rev (dropWhile isSpace (rev s)) @ rev (takeWhile isSpace (rev s)) = s"
    by (metis rev_append rev_rev_ident takeWhile_dropWhile_id)
  then have "s = trimEnd s @ rev (takeWhile isSpace (rev s))" by (simp add: trimEnd_def)
  then show ?thesis ..
qed



lemma trimStart_id: "s = [] \<or> \<not> isSpace (hd s) \<Longrightarrow> trimStart s = s"
  by (cases s) (auto simp: trimStart_def)


lemma trimEnd_last: "trimEnd s = [] \<or> \<not> isSpace (last (trimEnd s))"
proof (cases "dropWhile isSpace (rev s) = []")
  case True
  then show ?thesis by (simp add: trimEnd_def)
next
  case False
  then have "\<not> isSpace (hd (dropWhile isSpace (rev s)))" by (rule hd_dropWhile)
  then show ?thesis using False by (simp add: trimEnd_def last_rev)
qed

lemma trimEnd_hd: "s \<noteq> [] \<Longrightarrow> \<not> isSpace (hd s) \<Longrightarrow> trimEnd s \<noteq> [] \<and> hd (trimEnd s) = hd s"
proof -
  assume s: "s \<noteq> []" and h: "\<not> isSpace (hd s)"
  obtain w where w: "s = trimEnd s @ w" using trimEnd_prefix by blast
  have "trimEnd s \<noteq> []"
  proof
    assume e: "trimEnd s = []"
    then have "dropWhile isSpace (rev s) = []" by (simp add: trimEnd_def)
    then have "\<forall>c\<in>set (rev s). isSpace c" by (simp add: dropWhile_eq_Nil_conv)
    then show False using s h by (cases s) auto
  qed
  then show ?thesis using w by (metis hd_append2)
qed

lemma trim_shape: "trim s = [] \<or> (\<not> isSpace (hd (trim s)) \<and> \<not> isSpace (last (trim s)))"
proof (cases "trimStart s = []")
  case True
  then show ?thesis by (simp add: trim_def trimEnd_def)
next
  case False
  then have "\<not> isSpace (hd (trimStart s))" unfolding trimStart_def by (rule hd_dropWhile)
  then have "trimEnd (trimStart s) \<noteq> [] \<and> hd (trimEnd (trimStart s)) = hd (trimStart s)"
    using False by (intro trimEnd_hd)
  then show ?thesis
    using trimEnd_last [of "trimStart s"] \<open>\<not> isSpace (hd (trimStart s))\<close> by (simp add: trim_def)
qed








lemma inlineCodeMatcher_None_iff:
  "inlineCodeMatcher p (c # cs) = None \<longleftrightarrow>
     (c \<noteq> CHR ''`'' \<or> CHR ''`'' \<notin> set cs)"
proof (cases "c = CHR ''`''")
  case False
  then show ?thesis by (simp add: inlineCodeMatcher_def keepGroup_def delimited_def)
next
  case True
  let ?t = "takeWhile (\<lambda>x. x \<noteq> CHR ''`'') cs"
  have "prefix ''`'' (drop (length ?t) cs) \<longleftrightarrow> CHR ''`'' \<in> set cs"
  proof
    assume "prefix ''`'' (drop (length ?t) cs)"
    then have "CHR ''`'' \<in> set (drop (length ?t) cs)" by (cases "drop (length ?t) cs") auto
    then show "CHR ''`'' \<in> set cs" by (meson in_set_dropD)
  next
    assume "CHR ''`'' \<in> set cs"
    then have "dropWhile (\<lambda>x. x \<noteq> CHR ''`'') cs \<noteq> []" by (auto simp: dropWhile_eq_Nil_conv)
    moreover from this have "\<not> (hd (dropWhile (\<lambda>x. x \<noteq> CHR ''`'') cs) \<noteq> CHR ''`'')"
      by (rule hd_dropWhile)
    ultimately show "prefix ''`'' (drop (length ?t) cs)"
      by (cases "dropWhile (\<lambda>x. x \<noteq> CHR ''`'') cs") (auto simp: dropWhile_eq_drop)
  qed
  then show ?thesis using True by (simp add: inlineCodeMatcher_def keepGroup_def delimited_def Let_def)
qed

lemma inlineCodeMatcher_Some:
  "inlineCodeMatcher p s = Some (n, rep) \<Longrightarrow> 0 < n \<and> CHR ''`'' \<notin> set rep"
  by (auto simp: inlineCodeMatcher_def keepGroup_def delimited_def Let_def
      split: if_splits dest: set_takeWhileD)

lemma inlineCode_leaves_one_backtick:
  "length (filter (\<lambda>c. c = CHR ''`'') (replaceAll inlineCodeMatcher prev s)) \<le> 1"
proof (induction "length s" arbitrary: s prev rule: less_induct)
  case less
  let ?B = "\<lambda>c. c = CHR ''`''"
  show ?case
  proof (cases s)
    case Nil
    then show ?thesis by (simp add: inlineCodeMatcher_def keepGroup_def delimited_def)
  next
    case (Cons c cs)
    show ?thesis
    proof (cases "inlineCodeMatcher prev s")
      case None
      then have eq: "replaceAll inlineCodeMatcher prev s = c # replaceAll inlineCodeMatcher (Some c) cs"
        using Cons by simp
      show ?thesis
      proof (cases "c = CHR ''`''")
        case False
        then show ?thesis unfolding eq using less [of cs "Some c"] Cons by simp
      next
        case True
        then have "CHR ''`'' \<notin> set cs" using None Cons inlineCodeMatcher_None_iff by blast
        then have "replaceAll inlineCodeMatcher (Some c) cs = cs"
          by (intro replaceAll_quiet inlineCodeMatcher_quiet) auto
        moreover have "filter ?B cs = []"
          using \<open>CHR ''`'' \<notin> set cs\<close> by (auto simp: filter_empty_conv)
        ultimately show ?thesis unfolding eq using True by simp
      qed
    next
      case (Some a)
      obtain n rep where a: "a = (n, rep)" by (cases a)
      have n: "0 < n" "CHR ''`'' \<notin> set rep" using inlineCodeMatcher_Some Some a by blast+
      have eq: "replaceAll inlineCodeMatcher prev s
                = rep @ replaceAll inlineCodeMatcher (Some (last (take n s))) (drop n s)"
        using Some a n(1) Cons by (simp del: take_Suc_Cons drop_Suc_Cons)
      have "length (drop n s) < length s" using n(1) Cons by simp
      from less [OF this]
      have "length (filter ?B (replaceAll inlineCodeMatcher (Some (last (take n s))) (drop n s))) \<le> 1" .
      moreover have "filter ?B rep = []" using n(2) by (auto simp: filter_empty_conv)
      ultimately show ?thesis unfolding eq by simp
    qed
  qed
qed

lemma codeBlockMatcher_needs_three:
  "codeBlockMatcher p t = Some r \<Longrightarrow> 3 \<le> length (filter (\<lambda>c. c = CHR ''`'') t)"
  by (auto simp: codeBlockMatcher_def prefix_def split: if_splits)

lemma filter_suffix_le: "suffix t s \<Longrightarrow> length (filter P t) \<le> length (filter P s)"
  by (auto simp: suffix_def)

lemma replaceAll_quiet_suffix:
  assumes "\<And>p t. suffix t s \<Longrightarrow> m p t = None"
  shows "replaceAll m prev s = s"
  using assms
proof (induction s arbitrary: prev)
  case Nil
  then show ?case by simp
next
  case (Cons c cs)
  have "m prev (c # cs) = None" using Cons.prems by simp
  moreover have "replaceAll m (Some c) cs = cs"
    using Cons.prems by (intro Cons.IH) (simp add: suffix_Cons)
  ultimately show ?case by simp
qed

text \<open>Behind the rule for inline code at most one backtick is left in the text, so
  the rule for fenced blocks, which comes next in stripMarkdown, never finds its three.\<close>

lemma codeBlock_rule_unreachable:
  "replaceAll codeBlockMatcher None (replaceAll inlineCodeMatcher None s)
     = replaceAll inlineCodeMatcher None s"
proof (rule replaceAll_quiet_suffix)
  fix p t assume t: "suffix t (replaceAll inlineCodeMatcher None s)"
  show "codeBlockMatcher p t = None"
  proof (rule ccontr)
    assume "codeBlockMatcher p t \<noteq> None"
    then have "3 \<le> length (filter (\<lambda>c. c = CHR ''`'') t)"
      using codeBlockMatcher_needs_three by blast
    then show False
      using filter_suffix_le [OF t, of "\<lambda>c. c = CHR ''`''"] inlineCode_leaves_one_backtick [of None s]
      by simp
  qed
qed

text \<open>
  C2. A fenced code block survives stripMarkdown: the rule for inline code runs before
  the rule for fenced blocks and takes the fence apart, two backticks at a time, so the
  language token and the code stay in the output.
\<close>

theorem stripMarkdown_keeps_fenced_code:
  "stripMarkdown (''```js'' @ [nl] @ ''code'' @ [nl] @ ''```'') = ''js'' @ [nl] @ ''code''"
  by code_simp

section \<open>getFirstParagraph\<close>

lemma getFirstParagraph_cleanedText:
  "getFirstParagraph md =
     (case find (\<lambda>p. length (trim p) > 0) (split blankMatch (cleanedText md)) of
        None \<Rightarrow> [] | Some p \<Rightarrow> p)"
  by (simp add: getFirstParagraph_def cleanedText_def Let_def)

lemma blankMatch_pos: "blankMatch s = Some n \<Longrightarrow> 0 < n"
  by (cases s) (auto simp: blankMatch_def split: if_splits)

lemma splitFrom_first:
  "\<exists>u ps. splitFrom blankMatch acc s = (rev acc @ u) # ps \<and> prefix u s"
proof (induction s arbitrary: acc)
  case Nil
  then show ?case by simp
next
  case (Cons c cs)
  show ?case
  proof (cases "blankMatch (c # cs)")
    case None
    obtain u ps where "splitFrom blankMatch (c # acc) cs = (rev (c # acc) @ u) # ps" "prefix u cs"
      using Cons [of "c # acc"] by blast
    then have "splitFrom blankMatch acc (c # cs) = (rev acc @ (c # u)) # ps \<and> prefix (c # u) (c # cs)"
      using None by simp
    then show ?thesis by blast
  next
    case (Some n)
    then have "0 < n" by (rule blankMatch_pos)
    then have "splitFrom blankMatch acc (c # cs) = (rev acc @ []) # splitFrom blankMatch [] (drop n (c # cs))"
      using Some by simp
    then show ?thesis by (metis Nil_prefix)
  qed
qed

lemma trim_nonempty: "s \<noteq> [] \<Longrightarrow> \<not> isSpace (hd s) \<Longrightarrow> trim s \<noteq> []"
proof -
  assume s: "s \<noteq> []" and h: "\<not> isSpace (hd s)"
  then have "trimStart s = s" by (intro trimStart_id) simp
  then show ?thesis using trimEnd_hd [OF s h] by (simp add: trim_def)
qed

text \<open>
  C5 (as amended). getFirstParagraph returns the first block of the trimmed text that is
  left when the markup is removed, the blocks being what lies between blank-line
  boundaries. The block is a prefix of that text; it is empty when the text is empty, and
  otherwise it is not empty and begins with a code unit that is not white space. White
  space at its end stays.
\<close>

theorem getFirstParagraph_first_block:
  "(\<exists>ps. split blankMatch (cleanedText md) = getFirstParagraph md # ps)
   \<and> prefix (getFirstParagraph md) (cleanedText md)
   \<and> (cleanedText md = [] \<longrightarrow> getFirstParagraph md = [])
   \<and> (cleanedText md \<noteq> [] \<longrightarrow>
        getFirstParagraph md \<noteq> [] \<and> \<not> isSpace (hd (getFirstParagraph md)))"
proof (cases "cleanedText md")
  case Nil
  then have "split blankMatch (cleanedText md) = [[]]" by (simp add: split_def blankMatch_def)
  moreover from this have "getFirstParagraph md = []"
    by (simp add: getFirstParagraph_cleanedText trim_def trimStart_def trimEnd_def)
  ultimately show ?thesis using Nil by simp
next
  case (Cons c cs)
  obtain x where "cleanedText md = trim x" by (simp add: cleanedText_def)
  then have x: "trim x = c # cs" using Cons by simp
  have c: "\<not> isSpace c" using trim_shape [of x] unfolding x by simp
  then have "c \<noteq> nl" using isSpace_nl by blast
  then have "blankMatch (c # cs) = None" by (simp add: blankMatch_def)
  then have "split blankMatch (cleanedText md) = splitFrom blankMatch [c] cs"
    using Cons by (simp add: split_def)
  moreover obtain u ps where u: "splitFrom blankMatch [c] cs = (rev [c] @ u) # ps" "prefix u cs"
    using splitFrom_first by blast
  ultimately have sp: "split blankMatch (cleanedText md) = (c # u) # ps" by simp
  have "trim (c # u) \<noteq> []" using c by (intro trim_nonempty) auto
  then have "getFirstParagraph md = c # u"
    by (simp add: getFirstParagraph_cleanedText sp)
  then show ?thesis using sp u(2) c Cons by simp
qed

theorem getFirstParagraph_first_block_witness:
  "cleanedText (''# T'' @ [nl, nl] @ ''a *b* '' @ [nl, nl] @ ''c'') = ''a b '' @ [nl, nl] @ ''c''
   \<and> getFirstParagraph (''# T'' @ [nl, nl] @ ''a *b* '' @ [nl, nl] @ ''c'') = ''a b ''
   \<and> split blankMatch (cleanedText (''# T'' @ [nl, nl] @ ''a *b* '' @ [nl, nl] @ ''c'')) = [''a b '', ''c'']"
proof -
  have a: "cleanedText (''# T'' @ [nl, nl] @ ''a *b* '' @ [nl, nl] @ ''c'') = ''a b '' @ [nl, nl] @ ''c''"
    by code_simp
  have b: "split blankMatch (''a b '' @ [nl, nl] @ ''c'') = [''a b '', ''c'']"
    by code_simp
  show ?thesis
    using getFirstParagraph_first_block [of "''# T'' @ [nl, nl] @ ''a *b* '' @ [nl, nl] @ ''c''"]
    unfolding a b by simp
qed

text \<open>
  C5 as stated fails: only the text as a whole is trimmed, before it is split, so a block
  keeps the white space that stands before the blank line.
\<close>

theorem getFirstParagraph_untrimmed:
  "getFirstParagraph (''a '' @ [nl, nl] @ ''b'') = ''a ''
   \<and> trim (getFirstParagraph (''a '' @ [nl, nl] @ ''b'')) \<noteq> getFirstParagraph (''a '' @ [nl, nl] @ ''b'')"
  by code_simp

section \<open>getCreationDate\<close>

lemma searchFrom_None:
  assumes "\<And>t. suffix t s \<Longrightarrow> m t = None"
  shows "searchFrom m s = None"
  using assms
proof (induction s)
  case Nil
  then show ?case by simp
next
  case (Cons c cs)
  have "m (c # cs) = None" using Cons.prems by simp
  moreover have "searchFrom m cs = None"
    using Cons.prems by (intro Cons.IH) (simp add: suffix_Cons)
  ultimately show ?case by simp
qed

lemma tryLabels_Some:
  "tryLabels ls t = Some cap \<Longrightarrow> \<exists>l\<in>set ls. prefix l t \<and> restOfLine (drop (length l) t) = Some cap"
  by (induction ls) (auto split: if_splits option.splits)

lemma restOfLine_space: "restOfLine r = Some cap \<Longrightarrow> prefix '' '' r"
  by (cases r) (auto simp: restOfLine_def split: if_splits)

lemma prefix_suffix_sublist: "prefix l t \<Longrightarrow> suffix t s \<Longrightarrow> sublist l s"
  by (auto simp: prefix_def suffix_def sublist_def)

lemma creationLabels_split: "set creationLabels = insert '' '' (set properLabels)"
  by (auto simp: creationLabels_def properLabels_def)

lemma tryLabels_creation_None:
  assumes "\<forall>l\<in>set properLabels. \<not> sublist l s" and "\<not> sublist ''  '' s" and "suffix t s"
  shows "tryLabels creationLabels t = None"
proof (rule ccontr)
  assume "tryLabels creationLabels t \<noteq> None"
  then obtain cap where "tryLabels creationLabels t = Some cap" by blast
  then obtain l where l: "l \<in> set creationLabels" "prefix l t" "restOfLine (drop (length l) t) = Some cap"
    using tryLabels_Some by blast
  show False
  proof (cases "l = '' ''")
    case True
    then obtain r where t: "t = CHR '' '' # r" using l(2) by (cases t) auto
    then have "prefix '' '' r" using l(3) True restOfLine_space by fastforce
    then have "prefix ''  '' t" using t by simp
    then have "sublist ''  '' s" using assms(3) by (rule prefix_suffix_sublist)
    then show False using assms(2) by simp
  next
    case False
    then have "l \<in> set properLabels" using l(1) creationLabels_split by auto
    moreover have "sublist l s" using l(2) assms(3) by (rule prefix_suffix_sublist)
    ultimately show False using assms(1) by blast
  qed
qed

text \<open>
  C6 (as amended). getCreationDate returns nothing for a text in which no label of the
  pattern occurs (the labels of the pattern are more than the specification lists:
  \<^verbatim>\<open>**Date**\<close>, \<^verbatim>\<open>Created At\<close>, \<^verbatim>\<open>Created On\<close>, \<^verbatim>\<open>Created Date\<close> and
  \<^verbatim>\<open>Created Time\<close> without a colon, \<^verbatim>\<open>Date\<close> before a space, and the forms of
  \<^verbatim>\<open>Date Created\<close> between spaces) and in which no two spaces follow each other. It
  returns nothing when the pattern does not match, and when the text it captured, trimmed,
  is not a valid date for the parser.
\<close>

theorem getCreationDate_absent:
  "((\<forall>l\<in>set properLabels. \<not> sublist l content) \<and> \<not> sublist ''  '' content
      \<longrightarrow> getCreationDate newDate content = None)
   \<and> (searchFrom (tryLabels creationLabels) content = None
      \<longrightarrow> getCreationDate newDate content = None)
   \<and> (searchFrom (tryLabels creationLabels) content = Some cap \<and> getTime (newDate (trim cap)) = None
      \<longrightarrow> getCreationDate newDate content = None)"
proof (intro conjI impI)
  assume a: "(\<forall>l\<in>set properLabels. \<not> sublist l content) \<and> \<not> sublist ''  '' content"
  have "searchFrom (tryLabels creationLabels) content = None"
    using a by (intro searchFrom_None tryLabels_creation_None [of content]) auto
  then show "getCreationDate newDate content = None" by (simp add: getCreationDate_def)
next
  assume "searchFrom (tryLabels creationLabels) content = None"
  then show "getCreationDate newDate content = None" by (simp add: getCreationDate_def)
next
  assume "searchFrom (tryLabels creationLabels) content = Some cap \<and> getTime (newDate (trim cap)) = None"
  then show "getCreationDate newDate content = None" by (simp add: getCreationDate_def)
qed

theorem getCreationDate_absent_witness:
  "getCreationDate sampleNewDate ''Some content without date.'' = None
   \<and> searchFrom (tryLabels creationLabels) ''Date: soon'' = Some ''soon''
   \<and> getCreationDate sampleNewDate ''Date: soon'' = None"
proof -
  have 1: "list_all (\<lambda>l. \<not> sublist l ''Some content without date.'') properLabels" by code_simp
  have 2: "\<not> sublist ''  '' ''Some content without date.''" by code_simp
  have 3: "searchFrom (tryLabels creationLabels) ''Date: soon'' = Some ''soon''" by code_simp
  have 4: "getTime (sampleNewDate (trim ''soon'')) = None" by code_simp
  show ?thesis
    using getCreationDate_absent [of "''Some content without date.''" sampleNewDate "''x''"]
      getCreationDate_absent [of "''Date: soon''" sampleNewDate "''soon''"] 1 2 3 4
    by (simp add: list_all_iff)
qed

text \<open>
  C6 as stated fails: \<^verbatim>\<open>Created At\<close> without a colon is a label of the pattern, so a
  text with none of the labels of the specification can carry a creation date.
\<close>

theorem getCreationDate_unlisted_label:
  "getCreationDate sampleNewDate ''Created At 2024-12-07''
     = Some \<lparr>ident = 0, getTime = Some 1733529600000\<rparr>
   \<and> \<not> sublist ''Date:'' ''Created At 2024-12-07''
   \<and> \<not> sublist ''Created:'' ''Created At 2024-12-07''
   \<and> \<not> sublist ''Created At:'' ''Created At 2024-12-07''
   \<and> \<not> sublist ''Created On:'' ''Created At 2024-12-07''
   \<and> \<not> sublist ''Created Date:'' ''Created At 2024-12-07''
   \<and> \<not> sublist ''Created Time:'' ''Created At 2024-12-07''
   \<and> \<not> sublist ''**Date:**'' ''Created At 2024-12-07''"
  by code_simp

section \<open>validateMarkdown\<close>

lemma imageMatcher_pos: "imageMatcher p t = Some (n, x) \<Longrightarrow> 0 < n \<and> n \<le> length t"
  by (cases t) (auto simp: imageMatcher_def split: option.splits if_splits dest: matchLink_pos)

lemma validateMarkdownLinks_total: "\<exists>rs. validateMarkdownLinks content = Some rs"
proof -
  obtain ls where "execAll linkMatcher None content = Some ls"
    using execAll_total [of linkMatcher None content] linkMatcher_pos by blast
  then show ?thesis by (simp add: validateMarkdownLinks_def)
qed

lemma validateMarkdownImages_total: "\<exists>rs. validateMarkdownImages content = Some rs"
proof -
  obtain ls where "execAll imageMatcher None content = Some ls"
    using execAll_total [of imageMatcher None content] imageMatcher_pos by blast
  then show ?thesis by (simp add: validateMarkdownImages_def)
qed

lemma validateFrontmatter_valid: "isValid_fm (validateFrontmatter content)"
  by (simp add: validateFrontmatter_def split: option.splits prod.splits)

text \<open>
  C8. validateMarkdown returns a report for every content. In it isValid holds exactly
  when the list of errors is empty, and the list of errors is empty exactly when
  isValidMarkdown accepts the content: the warnings drawn from links, images and tables
  have no part in it.
\<close>

theorem validateMarkdown_isValid:
  "\<exists>r. validateMarkdown content = Some r
       \<and> isValid r = (errors r = [])
       \<and> errors r = (if isValidMarkdown content then []
                      else [''Content does not appear to be valid markdown''])
       \<and> isValid r = isValidMarkdown content"
proof -
  obtain ls where ls: "validateMarkdownLinks content = Some ls"
    using validateMarkdownLinks_total by blast
  obtain ims where ims: "validateMarkdownImages content = Some ims"
    using validateMarkdownImages_total by blast
  show ?thesis
    by (simp add: validateMarkdown_def ls ims validateFrontmatter_valid Let_def)
qed

theorem validateMarkdown_isValid_witness:
  "map_option isValid (validateMarkdown (''# T'' @ [nl] @ ''[a]()'')) = Some True
   \<and> map_option errors (validateMarkdown (''# T'' @ [nl] @ ''[a]()'')) = Some []
   \<and> map_option warnings (validateMarkdown (''# T'' @ [nl] @ ''[a]()''))
       = Some [''Invalid link '' @ [dquote] @ ''a'' @ [dquote] @ '': Empty URL'']"
proof -
  have v: "isValidMarkdown (''# T'' @ [nl] @ ''[a]()'')" by code_simp
  have w: "map_option warnings (validateMarkdown (''# T'' @ [nl] @ ''[a]()''))
       = Some [''Invalid link '' @ [dquote] @ ''a'' @ [dquote] @ '': Empty URL'']" by code_simp
  show ?thesis using validateMarkdown_isValid [of "''# T'' @ [nl] @ ''[a]()''"] v w by auto
qed

end
